theory Spec2Isabelle
  imports Complex_Main "HOL-Library.Multiset"
begin

section \<open>Data model of the Chromecast service\<close>

text \<open>
  The service object of \<^verbatim>\<open>src/services/ChromecastService.js\<close> is a record of its
  fields; every method becomes a function that takes the record and returns the updated
  one. Exceptions are values of the type \<open>error\<close>, returned on the left of a sum.
\<close>

datatype repeat_mode = RNone | ROne | RAll

text \<open>A queue entry as \<^verbatim>\<open>addToQueue\<close> builds it (the fields the service reads).\<close>

record track =
  url :: string
  title :: string
  artist :: string
  contentType :: string

text \<open>
  A track as the caller hands it to \<^verbatim>\<open>addToQueue\<close>; an absent (or empty, hence
  falsy) string field is the empty string.
\<close>

record catalog_track =
  ct_url :: string
  ct_title :: string
  ct_name :: string
  ct_artist :: string
  ct_contentType :: string

text \<open>A discovered device: its name, and whether its \<^verbatim>\<open>player\<close> is initialised.\<close>

record device =
  name :: string
  player :: bool

text \<open>
  The device status, restricted to the fields the playback logic reads
  (\<^verbatim>\<open>playerState\<close>, \<^verbatim>\<open>currentTime\<close>, \<^verbatim>\<open>media.duration\<close>); \<open>None\<close> is an
  absent field. Times are seconds.
\<close>

record media_info =
  duration :: "real option"

record devstatus =
  playerState :: "string option"
  currentTime :: "real option"
  media :: "media_info option"

datatype error = ChromecastError string | TypeError string | PlainError string

datatype outcome = Success string | Info string

text \<open>
  What the service does to the outside world, in order: commands sent to the device,
  timers it sleeps on, the attempt lines of the recovery wrapper, the background work
  it starts without awaiting it, and the end of a transition.
\<close>

datatype event =
    EvLoad string string string
  | EvStop
  | EvPlayerStop
  | EvGetStatus
  | EvQueueLoad nat
  | EvPollWait nat
  | EvWarmupWait nat
  | EvAttempt nat
  | EvBackoff nat
  | EvSpawnPreload int
  | EvSpawnAdvance
  | EvSpawnWatch int
  | EvSpawnSwitch int
  | EvSpawnFinished
  | EvTransitionDone

record service =
  currentDevice :: "device option"
  currentStatus :: devstatus
  queue :: "track list"
  currentTrackIndex :: int
  shuffle :: bool
  repeat :: repeat_mode
  originalQueue :: "track list"
  isAutoAdvancing :: bool
  sessionWarmupInProgress :: bool
  preloadInProgress :: bool
  connectionKeepAlive :: bool
  verificationTimeoutCfg :: "int option"
  clock :: int
  trace :: "event list"

text \<open>
  \<open>connectionKeepAlive\<close> says whether the keep-alive interval is armed;
  \<open>verificationTimeoutCfg\<close> is \<^verbatim>\<open>Number(config.chromecast.verificationTimeout)\<close>, a
  whole number of milliseconds (\<open>None\<close> when it is \<^verbatim>\<open>NaN\<close>; an infinite setting is
  not modelled); \<open>clock\<close> is what \<^verbatim>\<open>Date.now()\<close> reads, in milliseconds: a timer
  advances it by its delay and a poll by its latency; \<open>trace\<close> holds the events so far.
\<close>

definition getDefaultStatus :: devstatus where
  "getDefaultStatus = \<lparr>playerState = Some ''IDLE'', currentTime = Some 0, media = None\<rparr>"

text \<open>The state the constructor leaves (before any device is discovered).\<close>

definition initial_service :: "int option \<Rightarrow> service" where
  "initial_service cfg =
     \<lparr>currentDevice = None, currentStatus = getDefaultStatus, queue = [],
      currentTrackIndex = -1, shuffle = False, repeat = RNone, originalQueue = [],
      isAutoAdvancing = False, sessionWarmupInProgress = False, preloadInProgress = False,
      connectionKeepAlive = False, verificationTimeoutCfg = cfg, clock = 0, trace = []\<rparr>"

text \<open>
  JavaScript's \<^verbatim>\<open>xs[i]\<close>: the element, or \<^verbatim>\<open>undefined\<close> (\<open>None\<close>) out of range.
\<close>

definition elemAt :: "'a list \<Rightarrow> int \<Rightarrow> 'a option" where
  "elemAt xs i = (if 0 \<le> i \<and> i < int (length xs) then Some (xs ! nat i) else None)"

definition emit :: "event list \<Rightarrow> service \<Rightarrow> service" where
  "emit evs s = s\<lparr>trace := trace s @ evs\<rparr>"

fun digit_char :: "nat \<Rightarrow> char" where
  "digit_char n = ''0123456789'' ! (n mod 10)"

fun show_nat :: "nat \<Rightarrow> string" where
  "show_nat n = (if n < 10 then [digit_char n] else show_nat (n div 10) @ [digit_char n])"

section \<open>Queue store\<close>

definition toQueueEntry :: "catalog_track \<Rightarrow> track" where
  "toQueueEntry t =
     \<lparr>url = ct_url t,
      title = (if ct_title t \<noteq> [] then ct_title t
               else if ct_name t \<noteq> [] then ct_name t else ''Unknown Track''),
      artist = (if ct_artist t \<noteq> [] then ct_artist t else ''Unknown Artist''),
      contentType = (if ct_contentType t \<noteq> [] then ct_contentType t else ''audio/mpeg'')\<rparr>"

text \<open>
  \<^verbatim>\<open>addToQueue(tracks)\<close>: both the Cast queue path and the legacy fallback replace the
  queue by the given tracks and set the current index to 0. \<open>castOk\<close> says whether the
  device accepted \<^verbatim>\<open>queueLoad\<close>.
\<close>

definition addToQueue :: "bool \<Rightarrow> catalog_track list \<Rightarrow> service \<Rightarrow> error + (outcome \<times> service)" where
  "addToQueue castOk tracks s =
     (if currentDevice s = None then Inl (ChromecastError ''No device connected'')
      else
        let s1 = emit [EvQueueLoad (length tracks)] s;
            s2 = s1\<lparr>queue := map toQueueEntry tracks, currentTrackIndex := 0\<rparr>
        in Inr (Success (''Added '' @ show_nat (length tracks) @
                  (if castOk then '' tracks to Cast queue'' else '' tracks to legacy queue'')), s2))"

definition clearQueue :: "service \<Rightarrow> outcome \<times> service" where
  "clearQueue s =
     (Success ''Queue cleared'', s\<lparr>queue := [], currentTrackIndex := -1, originalQueue := []\<rparr>)"

text \<open>
  \<^verbatim>\<open>removeFromQueue(index)\<close>: \<^verbatim>\<open>splice(index, 1)\<close>, then the current index is
  decremented (not below -1) when it is at or after the removed position.
\<close>

definition removeFromQueue :: "int \<Rightarrow> service \<Rightarrow> error + (outcome \<times> service)" where
  "removeFromQueue index s =
     (if index < 0 \<or> index \<ge> int (length (queue s)) then Inl (ChromecastError ''Invalid queue index'')
      else
        let removedTrack = queue s ! nat index;
            s1 = s\<lparr>queue := take (nat index) (queue s) @ drop (Suc (nat index)) (queue s)\<rparr>;
            s2 = (if currentTrackIndex s1 \<ge> index
                  then s1\<lparr>currentTrackIndex := max (-1) (currentTrackIndex s1 - 1)\<rparr> else s1)
        in Inr (Success (''Removed '' @ [CHR 0x22] @ title removedTrack @ [CHR 0x22] @ '' from queue''), s2))"

text \<open>
  The Fisher-Yates loop of \<^verbatim>\<open>shuffleQueue\<close>:
  \<^verbatim>\<open>for (i = n - 1; i > 0; i--) { j = floor(random() * (i + 1)); swap(i, j) }\<close>.
  \<open>rnd k\<close> is the value of the \<open>k\<close>-th call of \<^verbatim>\<open>Math.random()\<close> (a number in
  \<open>[0, 1)\<close>); the destructuring swap reads both elements before it writes.
\<close>

fun fisherYates :: "(nat \<Rightarrow> real) \<Rightarrow> nat \<Rightarrow> nat \<Rightarrow> 'a list \<Rightarrow> 'a list" where
  "fisherYates rnd k 0 q = q"
| "fisherYates rnd k (Suc i') q =
     (let i = Suc i';
          j = nat \<lfloor>rnd k * real (i + 1)\<rfloor>
      in fisherYates rnd (Suc k) i' (q[i := q ! j, j := q ! i]))"

definition shuffleQueue :: "(nat \<Rightarrow> real) \<Rightarrow> service \<Rightarrow> outcome \<times> service" where
  "shuffleQueue rnd s =
     (if length (queue s) \<le> 1 then (Info ''Not enough tracks to shuffle'', s)
      else
        let s1 = (if \<not> shuffle s then s\<lparr>originalQueue := queue s\<rparr> else s);
            s2 = s1\<lparr>queue := fisherYates rnd 0 (length (queue s1) - 1) (queue s1)\<rparr>;
            s3 = s2\<lparr>shuffle := True, currentTrackIndex := -1\<rparr>
        in (Success ''Queue shuffled'', s3))"

definition restoreQueueOrder :: "service \<Rightarrow> outcome \<times> service" where
  "restoreQueueOrder s =
     (if \<not> shuffle s \<or> length (originalQueue s) = 0 then (Info ''Queue was not shuffled'', s)
      else (Success ''Original queue order restored'',
            s\<lparr>queue := originalQueue s, shuffle := False, currentTrackIndex := -1\<rparr>))"

text \<open>\<^verbatim>\<open>setRepeatMode(mode)\<close>: only \<^verbatim>\<open>'none'\<close>, \<^verbatim>\<open>'one'\<close> and \<^verbatim>\<open>'all'\<close> are accepted.\<close>

definition setRepeatMode :: "string \<Rightarrow> service \<Rightarrow> error + (outcome \<times> service)" where
  "setRepeatMode mode s =
     (if mode = ''none'' then Inr (Success ''Repeat mode set to: none'', s\<lparr>repeat := RNone\<rparr>)
      else if mode = ''one'' then Inr (Success ''Repeat mode set to: one'', s\<lparr>repeat := ROne\<rparr>)
      else if mode = ''all'' then Inr (Success ''Repeat mode set to: all'', s\<lparr>repeat := RAll\<rparr>)
      else Inl (ChromecastError ''Invalid repeat mode. Valid modes: none, one, all''))"

text \<open>
  \<^verbatim>\<open>disconnect()\<close>: disarms the keep-alive interval and, when a device is connected,
  forgets it and resets the cached status. Nothing else is assigned.
\<close>

definition disconnect :: "service \<Rightarrow> service" where
  "disconnect s =
     (let s1 = (if connectionKeepAlive s then s\<lparr>connectionKeepAlive := False\<rparr> else s)
      in if currentDevice s1 \<noteq> None
         then s1\<lparr>currentDevice := None, currentStatus := getDefaultStatus\<rparr>
         else s1)"

text \<open>
  The queue operations of the command surface, as one type, and a run of them; an
  operation that throws leaves the state as it was.
\<close>

datatype qop =
    OpShuffle "nat \<Rightarrow> real"
  | OpRestore
  | OpAdd bool "catalog_track list"
  | OpRemove int
  | OpClear

fun apply_qop :: "qop \<Rightarrow> service \<Rightarrow> service" where
  "apply_qop (OpShuffle rnd) s = snd (shuffleQueue rnd s)"
| "apply_qop OpRestore s = snd (restoreQueueOrder s)"
| "apply_qop (OpAdd castOk tracks) s =
     (case addToQueue castOk tracks s of Inl e \<Rightarrow> s | Inr r \<Rightarrow> snd r)"
| "apply_qop (OpRemove index) s =
     (case removeFromQueue index s of Inl e \<Rightarrow> s | Inr r \<Rightarrow> snd r)"
| "apply_qop OpClear s = snd (clearQueue s)"

fun run_qops :: "qop list \<Rightarrow> service \<Rightarrow> service" where
  "run_qops [] s = s"
| "run_qops (op # ops) s = run_qops ops (apply_qop op s)"

section \<open>Playback: what the device answers\<close>

text \<open>
  The device and the transport are outside the service. Their answers are parameters:
  an \<open>env\<close> holds what one call of \<^verbatim>\<open>playMedia\<close> meets, a \<open>recovery_env\<close> what
  each attempt of the recovery wrapper meets.
\<close>

datatype load_result = LoadOk | LoadErr string | LoadTimeout

text \<open>
  What \<^verbatim>\<open>_ensureSessionActive\<close> finds: a session (or an error that is not
  \<^verbatim>\<open>no session started\<close>), or no session and a warm-up load that succeeds or fails.
\<close>

datatype probe_result = HasSession | WarmupOk | WarmupFailed

text \<open>
  What reconnecting achieves when an attempt finds no device: no device name is saved;
  \<^verbatim>\<open>_attemptDeviceRecovery\<close> reconnects; it does not but the wrapper's own
  \<^verbatim>\<open>connectToDevice\<close> does; or that call throws. The handshake of
  \<^verbatim>\<open>connectToDevice\<close> is the transport's; the status it reports on success is a status
  update of its own.
\<close>

datatype recovery_result =
    NoSavedDevice
  | RecoveredFirst device
  | RecoveredSecond device
  | ReconnectThrew string

record env =
  sessionProbe :: probe_result
  loadAck :: load_result
  polls :: "nat \<Rightarrow> devstatus option"
  latency :: "nat \<Rightarrow> nat"
  playerStopErr :: "string option"

text \<open>
  \<open>polls k\<close> is the answer to the \<open>k\<close>-th \<^verbatim>\<open>getStatus\<close> of the verification loop
  (\<open>None\<close> for an error or an empty answer) and \<open>latency k\<close> the milliseconds it takes.
\<close>

record recovery_env =
  attemptEnv :: "nat \<Rightarrow> env"
  recovery :: "nat \<Rightarrow> recovery_result"

definition errorMessage :: "error \<Rightarrow> string" where
  "errorMessage e = (case e of ChromecastError m \<Rightarrow> m | TypeError m \<Rightarrow> m | PlainError m \<Rightarrow> m)"

definition sleep :: "event \<Rightarrow> nat \<Rightarrow> service \<Rightarrow> service" where
  "sleep ev ms s = (emit [ev] s)\<lparr>clock := clock s + int ms\<rparr>"

definition undefinedTrackMessage :: string where
  "undefinedTrackMessage = ''Cannot read properties of undefined''"

section \<open>Transition engine: the synchronous part\<close>

text \<open>
  The branch \<^verbatim>\<open>_executeAdvancement\<close> takes, from the repeat mode, the current index
  and the queue (lines 436 to 468): replay, advance by one, wrap to the first entry, or
  queue finished. Reading the title of an entry that does not exist throws, and the
  method's own \<^verbatim>\<open>catch\<close> swallows that.
\<close>

datatype advance_choice =
    Replay track int
  | Advance track int
  | WrapAround track
  | QueueFinished
  | AdvanceThrew

definition chooseAdvancement :: "service \<Rightarrow> advance_choice" where
  "chooseAdvancement s =
     (let queueBackup = queue s;
          currentIndex = currentTrackIndex s
      in if repeat s = ROne \<and> currentIndex \<ge> 0 then
           (case elemAt queueBackup currentIndex of
              None \<Rightarrow> AdvanceThrew
            | Some currentTrack \<Rightarrow> Replay currentTrack currentIndex)
         else if currentIndex < int (length queueBackup) - 1 then
           (case elemAt queueBackup (currentIndex + 1) of
              None \<Rightarrow> AdvanceThrew
            | Some nextTrack \<Rightarrow> Advance nextTrack (currentIndex + 1))
         else if repeat s = RAll \<and> length queueBackup > 0 then
           (case elemAt queueBackup 0 of
              None \<Rightarrow> AdvanceThrew
            | Some firstTrack \<Rightarrow> WrapAround firstTrack)
         else QueueFinished)"

text \<open>
  \<^verbatim>\<open>_handleTrackTransition\<close> calls \<^verbatim>\<open>_executeAdvancement()\<close> without awaiting it.
  What runs before the first \<^verbatim>\<open>await\<close> is the choice above and the assignment of the
  current index; the rest is background work (\<open>EvSpawnAdvance\<close>). When there is nothing
  to play the method ends at once and its \<^verbatim>\<open>finally\<close> clears the flag.
\<close>

definition executeAdvancement_begin :: "service \<Rightarrow> service" where
  "executeAdvancement_begin s =
     (case chooseAdvancement s of
        Replay t i \<Rightarrow> emit [EvSpawnAdvance] s
      | Advance t i \<Rightarrow> emit [EvSpawnAdvance] (s\<lparr>currentTrackIndex := i\<rparr>)
      | WrapAround t \<Rightarrow> emit [EvSpawnAdvance] (s\<lparr>currentTrackIndex := 0\<rparr>)
      | QueueFinished \<Rightarrow> s\<lparr>isAutoAdvancing := False\<rparr>
      | AdvanceThrew \<Rightarrow> s\<lparr>isAutoAdvancing := False\<rparr>)"

text \<open>
  \<^verbatim>\<open>_preloadNextTrack\<close> up to its \<^verbatim>\<open>setTimeout\<close>: with a next entry it arms the
  preload timer (\<open>EvSpawnPreload\<close>), otherwise it clears \<^verbatim>\<open>preloadInProgress\<close>.
\<close>

definition preloadNextTrack_begin :: "service \<Rightarrow> service" where
  "preloadNextTrack_begin s =
     (let nextIndex = currentTrackIndex s + 1
      in if nextIndex \<ge> int (length (queue s)) then s\<lparr>preloadInProgress := False\<rparr>
         else (case elemAt (queue s) nextIndex of
                 None \<Rightarrow> s\<lparr>preloadInProgress := False\<rparr>
               | Some nextTrack \<Rightarrow> emit [EvSpawnPreload nextIndex] s))"

definition shouldPreload :: "devstatus \<Rightarrow> service \<Rightarrow> bool" where
  "shouldPreload status s =
     (case media status of
        None \<Rightarrow> False
      | Some m \<Rightarrow>
         (case duration m of
            None \<Rightarrow> False
          | Some d \<Rightarrow>
             (case currentTime status of
                None \<Rightarrow> False
              | Some t \<Rightarrow>
                  d \<noteq> 0 \<and> d > 0 \<and> t \<ge> d * (7 / 10)
                  \<and> length (queue s) > 0 \<and> currentTrackIndex s \<ge> 0
                  \<and> currentTrackIndex s < int (length (queue s)) - 1
                  \<and> \<not> isAutoAdvancing s \<and> \<not> preloadInProgress s)))"

definition shouldAdvanceTraditional :: "string option \<Rightarrow> string \<Rightarrow> service \<Rightarrow> bool" where
  "shouldAdvanceTraditional previousState currentState s =
     (let isStateTransition =
            (previousState = Some ''PLAYING''
             \<and> (currentState = ''IDLE'' \<or> currentState = ''BUFFERING''))
      in isStateTransition \<and> length (queue s) > 0 \<and> currentTrackIndex s \<ge> 0
         \<and> \<not> isAutoAdvancing s)"

text \<open>
  \<^verbatim>\<open>_handleTrackTransition\<close>: both decisions are taken from the state on entry; then
  the preload is started, then the fallback advance.
\<close>

definition handleTrackTransition :: "string option \<Rightarrow> string \<Rightarrow> devstatus \<Rightarrow> service \<Rightarrow> service" where
  "handleTrackTransition previousState currentState status s =
     (let preload = shouldPreload status s;
          advance = shouldAdvanceTraditional previousState currentState s;
          s1 = (if preload then preloadNextTrack_begin (s\<lparr>preloadInProgress := True\<rparr>) else s);
          s2 = (if advance then executeAdvancement_begin (s1\<lparr>isAutoAdvancing := True\<rparr>) else s1)
      in s2)"

text \<open>
  \<^verbatim>\<open>_handleStatusUpdate\<close>: a status of the current device replaces the cached one;
  saving the connection state is outside the service. A status with a player state
  goes on to the transition logic unless a session warm-up is in progress.
\<close>

definition handleStatusUpdate :: "device \<Rightarrow> devstatus \<Rightarrow> service \<Rightarrow> service" where
  "handleStatusUpdate dev status s =
     (case currentDevice s of
        None \<Rightarrow> s
      | Some cur \<Rightarrow>
          if name dev \<noteq> name cur then s
          else
            let previousState = playerState (currentStatus s);
                s1 = s\<lparr>currentStatus := status\<rparr>
            in (case playerState status of
                  None \<Rightarrow> s1
                | Some currentState \<Rightarrow>
                    if currentState = [] then s1
                    else if sessionWarmupInProgress s1 then s1
                    else handleTrackTransition previousState currentState status s1))"

text \<open>
  Three transitions take \<^verbatim>\<open>isAutoAdvancing\<close>: the fallback advance
  (\<open>EvSpawnAdvance\<close>), the switch of the seamless transition (\<open>EvSpawnSwitch\<close>) and the
  advance of the \<^verbatim>\<open>finished\<close> handler (\<open>EvSpawnFinished\<close>). Each ends when its
  \<^verbatim>\<open>finally\<close> clears the flag (lines 154, 420 and 477): \<open>transitionDone\<close>.
\<close>

definition isTransitionStart :: "event \<Rightarrow> bool" where
  "isTransitionStart ev =
     (case ev of EvSpawnAdvance \<Rightarrow> True | EvSpawnSwitch i \<Rightarrow> True | EvSpawnFinished \<Rightarrow> True
      | _ \<Rightarrow> False)"

definition isTransitionEnd :: "event \<Rightarrow> bool" where
  "isTransitionEnd ev = (case ev of EvTransitionDone \<Rightarrow> True | _ \<Rightarrow> False)"

definition transitionsStarted :: "service \<Rightarrow> nat" where
  "transitionsStarted s = length (filter isTransitionStart (trace s))"

definition transitionsEnded :: "service \<Rightarrow> nat" where
  "transitionsEnded s = length (filter isTransitionEnd (trace s))"

text \<open>The number of transitions that have started and not ended.\<close>

definition inFlight :: "service \<Rightarrow> nat" where
  "inFlight s = transitionsStarted s - transitionsEnded s"

definition transitionDone :: "service \<Rightarrow> service" where
  "transitionDone s = emit [EvTransitionDone] (s\<lparr>isAutoAdvancing := False\<rparr>)"

text \<open>
  One tick of the watcher that \<^verbatim>\<open>_setupSeamlessTransition\<close> arms every 500 ms
  (\<^verbatim>\<open>checkForTransition\<close>, lines 356 to 390). It gives up when an advance is running.
  It commits to the switch when the current track is within 2 seconds of its end or
  idle: it takes the flag and the preloaded index (\<open>EvSpawnSwitch\<close>) and calls
  \<^verbatim>\<open>_verifyAndContinuePlayback\<close> (lines 396 to 422). When the cached status is playing
  that method has nothing to restart and its \<^verbatim>\<open>finally\<close> clears the flag before the
  tick returns; otherwise it awaits \<^verbatim>\<open>playMedia\<close>, so the flag stays set after the
  tick. A tick that does not commit re-arms itself (\<open>EvSpawnWatch\<close>) while the current
  index is still before the preloaded one.
\<close>

datatype watch_result = WatchCancelled | WatchSwitch | WatchAgain | WatchAbandoned

definition checkForTransition :: "int \<Rightarrow> service \<Rightarrow> watch_result \<times> service" where
  "checkForTransition nextIndex s =
     (if isAutoAdvancing s then (WatchCancelled, s)
      else
        let ending =
              (case media (currentStatus s) of
                 None \<Rightarrow> False
               | Some m \<Rightarrow>
                  (case duration m of
                     None \<Rightarrow> False
                   | Some d \<Rightarrow>
                       d \<noteq> 0
                       \<and> (let ct = (case currentTime (currentStatus s) of None \<Rightarrow> 0 | Some t \<Rightarrow> t);
                              timeRemaining = d - ct
                          in timeRemaining \<le> 2 \<or> playerState (currentStatus s) = Some ''IDLE'')))
        in if ending then
             (let s1 = emit [EvSpawnSwitch nextIndex]
                         (s\<lparr>isAutoAdvancing := True, currentTrackIndex := nextIndex\<rparr>)
              in if playerState (currentStatus s1) = Some ''PLAYING''
                 then (WatchSwitch, transitionDone s1)
                 else (WatchSwitch, s1))
           else if \<not> isAutoAdvancing s \<and> currentTrackIndex s < nextIndex then
             (WatchAgain, emit [EvSpawnWatch nextIndex] s)
           else (WatchAbandoned, s))"

text \<open>
  The timer that \<^verbatim>\<open>_preloadNextTrack\<close> armed fires 1000 ms later, for the track it
  captured (lines 294 to 321): with a device connected it loads that track under the
  title \<^verbatim>\<open>title + ' (Preload)'\<close>; without one it waits for a reconnection first.
\<close>

definition preloadTimerFired :: "track \<Rightarrow> service \<Rightarrow> service" where
  "preloadTimerFired nextTrack s =
     (case currentDevice s of
        None \<Rightarrow> s
      | Some dev \<Rightarrow>
          emit [EvLoad (url nextTrack) (contentType nextTrack) (title nextTrack @ '' (Preload)'')] s)"

text \<open>
  The end of the preload (lines 299 to 343). When the device has acknowledged the load,
  the transition watcher is armed for the captured index (\<open>EvSpawnWatch\<close>); when the
  load failed, or no device could be reconnected, nothing is armed. Either way
  \<^verbatim>\<open>preloadInProgress\<close> is cleared. A load that is never answered never gets here.
\<close>

definition preloadEnded :: "bool \<Rightarrow> int \<Rightarrow> service \<Rightarrow> service" where
  "preloadEnded acknowledged nextIndex s =
     (if acknowledged then (emit [EvSpawnWatch nextIndex] s)\<lparr>preloadInProgress := False\<rparr>
      else s\<lparr>preloadInProgress := False\<rparr>)"

text \<open>
  \<^verbatim>\<open>_handleTrackFinished\<close> up to its first \<^verbatim>\<open>await\<close> (lines 104 to 143). Unless the
  flag is set it takes the flag (\<open>EvSpawnFinished\<close>) and picks the entry to play,
  assigning the current index for the next entry and for the first one. The play is
  awaited, so with an entry to play the flag stays set after this segment; with nothing
  to play, or when reading the title of a missing entry throws, the \<^verbatim>\<open>finally\<close> clears
  the flag before the handler returns.
\<close>

definition handleTrackFinished_begin :: "service \<Rightarrow> service" where
  "handleTrackFinished_begin s =
     (if isAutoAdvancing s then s
      else
        let s0 = emit [EvSpawnFinished] (s\<lparr>isAutoAdvancing := True\<rparr>)
        in if repeat s0 = ROne \<and> currentTrackIndex s0 \<ge> 0 then
             (case elemAt (queue s0) (currentTrackIndex s0) of
                None \<Rightarrow> transitionDone s0
              | Some currentTrack \<Rightarrow> s0)
           else if length (queue s0) > 0
                   \<and> currentTrackIndex s0 < int (length (queue s0)) - 1 then
             (let s1 = s0\<lparr>currentTrackIndex := currentTrackIndex s0 + 1\<rparr>
              in (case elemAt (queue s1) (currentTrackIndex s1) of
                    None \<Rightarrow> transitionDone s1
                  | Some nextTrack \<Rightarrow> s1))
           else if repeat s0 = RAll \<and> length (queue s0) > 0 then
             (let s1 = s0\<lparr>currentTrackIndex := 0\<rparr>
              in (case elemAt (queue s1) 0 of
                    None \<Rightarrow> transitionDone s1
                  | Some firstTrack \<Rightarrow> s1))
           else transitionDone s0)"

lemma executeAdvancement_begin_clock: "clock (executeAdvancement_begin s) = clock s"
  by (simp add: executeAdvancement_begin_def emit_def split: advance_choice.split)

lemma preloadNextTrack_begin_clock: "clock (preloadNextTrack_begin s) = clock s"
  by (simp add: preloadNextTrack_begin_def emit_def Let_def split: option.split)

lemma handleTrackTransition_clock: "clock (handleTrackTransition p c st s) = clock s"
  by (simp add: handleTrackTransition_def Let_def executeAdvancement_begin_clock
      preloadNextTrack_begin_clock)

lemma handleStatusUpdate_clock: "clock (handleStatusUpdate dev st s) = clock s"
  by (simp add: handleStatusUpdate_def Let_def handleTrackTransition_clock split: option.split)

section \<open>Playback controller\<close>

text \<open>
  The functions of this section run a command from its call to its return, with every
  device call answered and no other segment of the service in between. The section
  \<open>Playback while other segments run\<close> lifts both restrictions, and agrees with this
  one when nothing else happens.
\<close>

definition isPlayingOrBuffering :: "devstatus \<Rightarrow> bool" where
  "isPlayingOrBuffering st =
     (playerState st = Some ''PLAYING'' \<or> playerState st = Some ''BUFFERING'')"

text \<open>
  \<^verbatim>\<open>Math.max(3000, Number(cfg) || 5000)\<close>: a missing, non-numeric or zero setting
  counts as 5000 ms, and nothing below 3000 ms is accepted.
\<close>

definition verificationTimeout :: "int option \<Rightarrow> int" where
  "verificationTimeout cfg =
     max 3000 (case cfg of None \<Rightarrow> 5000 | Some n \<Rightarrow> if n \<noteq> 0 then n else 5000)"

text \<open>
  The loop of \<^verbatim>\<open>_verifyPlayback\<close>. While the clock is within the timeout: a cached
  status that is playing or buffering is accepted; otherwise the device is polled, its
  answer goes through \<^verbatim>\<open>_handleStatusUpdate\<close> and is accepted when it is playing or
  buffering; otherwise the loop sleeps 250 ms and goes round again.
\<close>

function verifyLoop :: "env \<Rightarrow> int \<Rightarrow> int \<Rightarrow> nat \<Rightarrow> service \<Rightarrow> bool \<times> service" where
  "verifyLoop e timeout start k s =
     (if clock s - start < timeout then
        (if isPlayingOrBuffering (currentStatus s) then (True, s)
         else
           (case currentDevice s of
              None \<Rightarrow> verifyLoop e timeout start (Suc k) (sleep (EvPollWait 250) 250 s)
            | Some dev \<Rightarrow>
                let s1 = (emit [EvGetStatus] s)\<lparr>clock := clock s + int (latency e k)\<rparr>
                in (case polls e k of
                      None \<Rightarrow> verifyLoop e timeout start (Suc k) (sleep (EvPollWait 250) 250 s1)
                    | Some polled \<Rightarrow>
                        let s2 = handleStatusUpdate dev polled s1
                        in if isPlayingOrBuffering polled then (True, s2)
                           else verifyLoop e timeout start (Suc k) (sleep (EvPollWait 250) 250 s2))))
      else (False, s))"
  by pat_completeness auto
termination
  by (relation "measure (\<lambda>(e, timeout, start, k, s). nat (timeout - (clock s - start)))")
     (auto simp add: sleep_def emit_def handleStatusUpdate_clock)

declare verifyLoop.simps [simp del]

definition verifyPlayback :: "env \<Rightarrow> service \<Rightarrow> bool \<times> service" where
  "verifyPlayback e s =
     (let timeout = verificationTimeout (verificationTimeoutCfg s);
          start = clock s;
          s1 = sleep (EvPollWait 250) 250 s
      in verifyLoop e timeout start 0 s1)"

definition playMediaDirectly :: "env \<Rightarrow> track \<Rightarrow> service \<Rightarrow> (error + outcome) \<times> service" where
  "playMediaDirectly e t s =
     (if currentDevice s = None then (Inl (ChromecastError ''No device connected''), s)
      else
        let s1 = emit [EvLoad (url t) (contentType t) (title t)] s
        in (case loadAck e of
              LoadErr msg \<Rightarrow> (Inl (ChromecastError (''Failed to play media: '' @ msg)), s1)
            | LoadTimeout \<Rightarrow> (Inl (ChromecastError ''Media load timeout''), s1\<lparr>clock := clock s1 + 10000\<rparr>)
            | LoadOk \<Rightarrow>
                (case verifyPlayback e s1 of
                   (isPlaying, s2) \<Rightarrow>
                     if \<not> isPlaying then (Inl (ChromecastError ''Playback verification failed''), s2)
                     else (Inr (Success (''Playing: '' @ title t)), s2))))"

definition dummyMediaUrl :: string where
  "dummyMediaUrl = ''http://commondatastorage.googleapis.com/gtv-videos-bucket/sample/BigBuckBunny.mp4''"

text \<open>
  \<^verbatim>\<open>_ensureSessionActive\<close>: a status probe and, without a session, the warm-up (a
  dummy load, 800 ms, a stop, a probe). The warm-up flag is raised and lowered within
  the call.
\<close>

definition ensureSessionActive :: "env \<Rightarrow> service \<Rightarrow> (error + bool) \<times> service" where
  "ensureSessionActive e s =
     (if currentDevice s = None then (Inl (ChromecastError ''No device connected''), s)
      else
        let s1 = emit [EvGetStatus] s
        in (case sessionProbe e of
              HasSession \<Rightarrow> (Inr True, s1)
            | WarmupOk \<Rightarrow>
                (Inr True,
                 (emit [EvStop, EvGetStatus]
                    (sleep (EvWarmupWait 800) 800
                       (emit [EvLoad dummyMediaUrl ''video/mp4'' ''Session Warmup'']
                          (s1\<lparr>sessionWarmupInProgress := True\<rparr>))))
                 \<lparr>sessionWarmupInProgress := False\<rparr>)
            | WarmupFailed \<Rightarrow>
                (Inr False,
                 (emit [EvLoad dummyMediaUrl ''video/mp4'' ''Session Warmup'']
                    (s1\<lparr>sessionWarmupInProgress := True\<rparr>))
                 \<lparr>sessionWarmupInProgress := False\<rparr>)))"

definition stopCurrentPlayback :: "service \<Rightarrow> service" where
  "stopCurrentPlayback s = (if currentDevice s = None then s else emit [EvStop] s)"

text \<open>
  \<^verbatim>\<open>playMedia(track.url, track.contentType, track.title, forceStop)\<close>. An error that
  is not a \<^verbatim>\<open>ChromecastError\<close> is wrapped into one.
\<close>

definition playMedia :: "env \<Rightarrow> track \<Rightarrow> bool \<Rightarrow> service \<Rightarrow> (error + bool) \<times> service" where
  "playMedia e t forceStop s =
     (if currentDevice s = None then (Inl (ChromecastError ''No device connected''), s)
      else
        (case ensureSessionActive e s of
           (Inl err, s1) \<Rightarrow> (Inl err, s1)
         | (Inr established, s1) \<Rightarrow>
             let s2 = (if forceStop then stopCurrentPlayback s1 else s1)
             in (case playMediaDirectly e t s2 of
                   (Inl (ChromecastError m), s3) \<Rightarrow> (Inl (ChromecastError m), s3)
                 | (Inl err, s3) \<Rightarrow>
                     (Inl (ChromecastError (''Media playback failed: '' @ errorMessage err)), s3)
                 | (Inr result, s3) \<Rightarrow> (Inr True, s3))))"

text \<open>
  \<^verbatim>\<open>skipToNext()\<close>. With a next entry in the queue the current index is incremented
  and that entry played; otherwise the current media is stopped when it is playing.
  The repeat mode is not read.
\<close>

definition skipToNext :: "env \<Rightarrow> service \<Rightarrow> (error + outcome) \<times> service" where
  "skipToNext e s =
     (case currentDevice s of
        None \<Rightarrow> (Inl (ChromecastError ''No device connected''), s)
      | Some dev \<Rightarrow>
          if length (queue s) > 0 \<and> currentTrackIndex s < int (length (queue s)) - 1 then
            (let s1 = s\<lparr>currentTrackIndex := currentTrackIndex s + 1\<rparr>
             in (case elemAt (queue s1) (currentTrackIndex s1) of
                   None \<Rightarrow> (Inl (ChromecastError (''Skip failed: '' @ undefinedTrackMessage)), s1)
                 | Some nextTrack \<Rightarrow>
                     (case playMedia e nextTrack True s1 of
                        (Inl err, s2) \<Rightarrow> (Inl (ChromecastError (''Skip failed: '' @ errorMessage err)), s2)
                      | (Inr ok, s2) \<Rightarrow> (Inr (Success (''Skipped to: '' @ title nextTrack)), s2))))
          else if player dev \<and> playerState (currentStatus s) = Some ''PLAYING'' then
            (case playerStopErr e of
               Some msg \<Rightarrow> (Inl (ChromecastError (''Skip failed: '' @ msg)), emit [EvPlayerStop] s)
             | None \<Rightarrow>
                 (Inr (Success ''Stopped current track - no next track in queue''), emit [EvPlayerStop] s))
          else (Inr (Info ''No next track available and nothing currently playing''), s))"

text \<open>\<^verbatim>\<open>skipToTrack(trackNumber)\<close>, with the track number counted from 1.\<close>

definition skipToTrack :: "env \<Rightarrow> int \<Rightarrow> service \<Rightarrow> (error + outcome) \<times> service" where
  "skipToTrack e trackNumber s =
     (if currentDevice s = None then (Inl (ChromecastError ''No device connected''), s)
      else
        let targetIndex = trackNumber - 1
        in if length (queue s) = 0 then (Inl (ChromecastError ''Queue is empty''), s)
           else if targetIndex < 0 \<or> targetIndex \<ge> int (length (queue s)) then
             (Inl (ChromecastError (''Invalid track number. Valid range: 1-'' @ show_nat (length (queue s)))), s)
           else
             (let s1 = s\<lparr>currentTrackIndex := targetIndex\<rparr>;
                  t = queue s1 ! nat (currentTrackIndex s1)
              in (case playMedia e t True s1 of
                    (Inl err, s2) \<Rightarrow>
                      (Inl (ChromecastError (''Skip to track failed: '' @ errorMessage err)), s2)
                  | (Inr ok, s2) \<Rightarrow>
                      (Inr (Success (''Skipped to track '' @ show_nat (nat trackNumber) @ '': '' @ title t)), s2))))"

text \<open>
  \<^verbatim>\<open>stop()\<close>: stops the player, marks the cached status idle with no media, and
  forgets the current index. The queue is left as it is.
\<close>

definition stop :: "env \<Rightarrow> service \<Rightarrow> (error + outcome) \<times> service" where
  "stop e s =
     (case currentDevice s of
        None \<Rightarrow> (Inl (ChromecastError ''No device connected''), s)
      | Some dev \<Rightarrow>
          if \<not> player dev then (Inl (ChromecastError ''Stop failed: Player not initialized''), s)
          else
            (case playerStopErr e of
               Some msg \<Rightarrow> (Inl (ChromecastError (''Stop failed: '' @ msg)), emit [EvPlayerStop] s)
             | None \<Rightarrow>
                 (Inr (Success ''Playback stopped''),
                  (emit [EvPlayerStop] s)
                  \<lparr>currentStatus := (currentStatus s)\<lparr>playerState := Some ''IDLE'',
                        currentTime := Some 0, media := None\<rparr>,
                    currentTrackIndex := -1\<rparr>)))"

section \<open>Recovery wrapper and automatic advance\<close>

definition maxAttempts :: nat where
  "maxAttempts = 3"

text \<open>
  The body of one attempt of \<^verbatim>\<open>_playTrackWithRecovery\<close>: reconnect when no device is
  connected, fail when there still is none, otherwise restore the queue and the index
  and play the track.
\<close>

definition playAttempt :: "recovery_env \<Rightarrow> nat \<Rightarrow> track \<Rightarrow> track list \<Rightarrow> int \<Rightarrow> service \<Rightarrow> (error + unit) \<times> service" where
  "playAttempt r attempt t queueBackup trackIndex s =
     (let reconnected =
            (if currentDevice s = None then
               (case recovery r attempt of
                  NoSavedDevice \<Rightarrow> (None, s)
                | RecoveredFirst d \<Rightarrow>
                    (None, s\<lparr>currentDevice := Some d, connectionKeepAlive := True\<rparr>)
                | RecoveredSecond d \<Rightarrow>
                    (None, s\<lparr>queue := queueBackup, currentTrackIndex := trackIndex,
                              currentDevice := Some d, connectionKeepAlive := True\<rparr>)
                | ReconnectThrew msg \<Rightarrow>
                    (Some (ChromecastError msg),
                     disconnect (s\<lparr>queue := queueBackup, currentTrackIndex := trackIndex\<rparr>)))
             else (None, s))
      in (case reconnected of
            (Some err, s1) \<Rightarrow> (Inl err, s1)
          | (None, s1) \<Rightarrow>
              if currentDevice s1 = None then
                (Inl (PlainError ''Unable to establish device connection''), s1)
              else
                (let s2 = s1\<lparr>queue := queueBackup, currentTrackIndex := trackIndex\<rparr>
                 in (case playMedia (attemptEnv r attempt) t True s2 of
                       (Inl err, s3) \<Rightarrow> (Inl err, s3)
                     | (Inr ok, s3) \<Rightarrow> (Inr (), s3)))))"

text \<open>
  The loop \<^verbatim>\<open>for (attempt = 1; attempt <= maxAttempts; attempt++)\<close>: a failed attempt
  that is the last one rethrows, any other waits \<open>1000 * attempt\<close> ms.
\<close>

function playTrackWithRecovery_from :: "recovery_env \<Rightarrow> nat \<Rightarrow> track \<Rightarrow> track list \<Rightarrow> int \<Rightarrow> service \<Rightarrow> (error + unit) \<times> service" where
  "playTrackWithRecovery_from r attempt t queueBackup trackIndex s =
     (if attempt \<le> maxAttempts then
        (case playAttempt r attempt t queueBackup trackIndex (emit [EvAttempt attempt] s) of
           (Inr ok, s1) \<Rightarrow> (Inr (), s1)
         | (Inl err, s1) \<Rightarrow>
             if attempt = maxAttempts then (Inl err, s1)
             else playTrackWithRecovery_from r (Suc attempt) t queueBackup trackIndex
                    (sleep (EvBackoff (1000 * attempt)) (1000 * attempt) s1))
      else (Inr (), s))"
  by pat_completeness auto
termination
  by (relation "measure (\<lambda>(r, attempt, t, queueBackup, trackIndex, s). Suc maxAttempts - attempt)")
     auto

declare playTrackWithRecovery_from.simps [simp del]

definition playTrackWithRecovery :: "recovery_env \<Rightarrow> track \<Rightarrow> track list \<Rightarrow> int \<Rightarrow> service \<Rightarrow> (error + unit) \<times> service" where
  "playTrackWithRecovery r t queueBackup trackIndex s =
     playTrackWithRecovery_from r 1 t queueBackup trackIndex s"

text \<open>
  \<^verbatim>\<open>_executeAdvancement\<close> run to its end: the chosen entry is handed to the recovery
  wrapper, an error of the wrapper is logged and dropped, and \<^verbatim>\<open>finally\<close> clears
  \<^verbatim>\<open>isAutoAdvancing\<close>.
\<close>

definition executeAdvancement :: "recovery_env \<Rightarrow> service \<Rightarrow> service" where
  "executeAdvancement r s =
     (let queueBackup = queue s;
          s' = (case chooseAdvancement s of
                  Replay t i \<Rightarrow> snd (playTrackWithRecovery r t queueBackup i s)
                | Advance t i \<Rightarrow>
                    snd (playTrackWithRecovery r t queueBackup i (s\<lparr>currentTrackIndex := i\<rparr>))
                | WrapAround t \<Rightarrow>
                    snd (playTrackWithRecovery r t queueBackup 0 (s\<lparr>currentTrackIndex := 0\<rparr>))
                | QueueFinished \<Rightarrow> s
                | AdvanceThrew \<Rightarrow> s)
      in s'\<lparr>isAutoAdvancing := False\<rparr>)"

text \<open>
  \<^verbatim>\<open>_handleTrackFinished\<close>, the handler of the device's \<^verbatim>\<open>finished\<close> event: the same
  three branches, playing through \<^verbatim>\<open>playMedia\<close> directly.
\<close>

definition handleTrackFinished :: "env \<Rightarrow> service \<Rightarrow> service" where
  "handleTrackFinished e s =
     (if isAutoAdvancing s then s
      else
        let s0 = s\<lparr>isAutoAdvancing := True\<rparr>;
            s' = (if repeat s0 = ROne \<and> currentTrackIndex s0 \<ge> 0 then
                    (case elemAt (queue s0) (currentTrackIndex s0) of
                       None \<Rightarrow> s0
                     | Some currentTrack \<Rightarrow> snd (playMedia e currentTrack True s0))
                  else if length (queue s0) > 0
                          \<and> currentTrackIndex s0 < int (length (queue s0)) - 1 then
                    (let s1 = s0\<lparr>currentTrackIndex := currentTrackIndex s0 + 1\<rparr>
                     in (case elemAt (queue s1) (currentTrackIndex s1) of
                           None \<Rightarrow> s1
                         | Some nextTrack \<Rightarrow> snd (playMedia e nextTrack True s1)))
                  else if repeat s0 = RAll \<and> length (queue s0) > 0 then
                    (let s1 = s0\<lparr>currentTrackIndex := 0\<rparr>
                     in (case elemAt (queue s1) 0 of
                           None \<Rightarrow> s1
                         | Some firstTrack \<Rightarrow> snd (playMedia e firstTrack True s1)))
                  else s0)
        in s'\<lparr>isAutoAdvancing := False\<rparr>)"

section \<open>Status normalizer\<close>

text \<open>
  \<^verbatim>\<open>_sanitizeStatus\<close> takes whatever the device library hands over, so its argument is
  an arbitrary JavaScript value. Numbers are modelled as reals with the three
  non-finite values; an object is the list of its own fields.
\<close>

datatype jsnum = Fin real | NaN | PosInf | NegInf

datatype jsval =
    JUndefined
  | JNull
  | JBool bool
  | JNum jsnum
  | JStr string
  | JBigInt int
  | JSymbol
  | JFun
  | JObj "(string \<times> jsval) list"

datatype jstype = TUndefined | TObject | TBoolean | TNumber | TString | TBigint | TSymbol | TFunction

fun typeof :: "jsval \<Rightarrow> jstype" where
  "typeof JUndefined = TUndefined"
| "typeof JNull = TObject"
| "typeof (JBool b) = TBoolean"
| "typeof (JNum n) = TNumber"
| "typeof (JStr s) = TString"
| "typeof (JBigInt i) = TBigint"
| "typeof JSymbol = TSymbol"
| "typeof JFun = TFunction"
| "typeof (JObj fs) = TObject"

fun truthy :: "jsval \<Rightarrow> bool" where
  "truthy JUndefined = False"
| "truthy JNull = False"
| "truthy (JBool b) = b"
| "truthy (JNum n) = (n \<noteq> Fin 0 \<and> n \<noteq> NaN)"
| "truthy (JStr s) = (s \<noteq> [])"
| "truthy (JBigInt i) = (i \<noteq> 0)"
| "truthy JSymbol = True"
| "truthy JFun = True"
| "truthy (JObj fs) = True"

text \<open>Reading a field: \<^verbatim>\<open>undefined\<close> when the object has no such field.\<close>

fun getProp :: "jsval \<Rightarrow> string \<Rightarrow> jsval" where
  "getProp (JObj fs) k = (case map_of fs k of None \<Rightarrow> JUndefined | Some v \<Rightarrow> v)"
| "getProp v k = JUndefined"

text \<open>\<^verbatim>\<open>v || null\<close>\<close>

definition orNull :: "jsval \<Rightarrow> jsval" where
  "orNull v = (if truthy v then v else JNull)"

definition defaultSafeStatus :: jsval where
  "defaultSafeStatus =
     JObj [(''mediaSessionId'', JNull), (''playbackRate'', JNum (Fin 1)),
           (''playerState'', JStr ''IDLE''), (''currentTime'', JNum (Fin 0)),
           (''volume'', JNull), (''media'', JNull)]"

definition sanitizeVolume :: "jsval \<Rightarrow> jsval" where
  "sanitizeVolume v =
     (if truthy v \<and> typeof v = TObject then
        JObj [(''level'', if typeof (getProp v ''level'') = TNumber then getProp v ''level''
                          else if typeof v = TNumber then v else JNum (Fin 0)),
              (''muted'', if typeof (getProp v ''muted'') = TBoolean then getProp v ''muted''
                          else JBool False)]
      else if typeof v = TNumber then JObj [(''level'', v), (''muted'', JBool False)]
      else JNull)"

definition sanitizeMedia :: "jsval \<Rightarrow> jsval" where
  "sanitizeMedia m =
     (if truthy m \<and> typeof m = TObject then
        JObj [(''contentId'', orNull (getProp m ''contentId'')),
              (''contentType'', orNull (getProp m ''contentType'')),
              (''duration'', if typeof (getProp m ''duration'') = TNumber then getProp m ''duration''
                             else JNull),
              (''metadata'',
                 if truthy (getProp m ''metadata'') \<and> typeof (getProp m ''metadata'') = TObject
                 then JObj [(''title'', orNull (getProp (getProp m ''metadata'') ''title''))]
                 else JNull)]
      else JNull)"

text \<open>
  \<^verbatim>\<open>_sanitizeStatus(status)\<close>. The two early returns and the field-by-field copy into
  \<^verbatim>\<open>safeStatus\<close>; \<open>sanitizeVolume\<close> and \<open>sanitizeMedia\<close> are its two blocks for the
  nested objects.
\<close>

definition sanitizeStatus :: "jsval \<Rightarrow> jsval" where
  "sanitizeStatus status =
     (if \<not> truthy status then defaultSafeStatus
      else if typeof status \<noteq> TObject then defaultSafeStatus
      else
        JObj [(''mediaSessionId'',
                 if getProp status ''mediaSessionId'' \<noteq> JUndefined
                    \<and> getProp status ''mediaSessionId'' \<noteq> JNull
                 then getProp status ''mediaSessionId'' else JNull),
              (''playbackRate'',
                 if typeof (getProp status ''playbackRate'') = TNumber
                 then getProp status ''playbackRate'' else JNum (Fin 1)),
              (''playerState'',
                 if typeof (getProp status ''playerState'') = TString
                 then getProp status ''playerState'' else JStr ''IDLE''),
              (''currentTime'',
                 if typeof (getProp status ''currentTime'') = TNumber
                 then getProp status ''currentTime'' else JNum (Fin 0)),
              (''volume'', sanitizeVolume (getProp status ''volume'')),
              (''media'', sanitizeMedia (getProp status ''media''))])"

text \<open>
  The shape the specification promises of a normalized status: an object with exactly
  the six fields, a numeric playback rate and current time, a string player state, a
  session id that is never \<^verbatim>\<open>undefined\<close>, a volume that is \<^verbatim>\<open>null\<close> or a complete
  \<^verbatim>\<open>{level, muted}\<close>, and a media that is \<^verbatim>\<open>null\<close> or has its four fields.
\<close>

definition volumeShape :: "jsval \<Rightarrow> bool" where
  "volumeShape v =
     (v = JNull
      \<or> (case v of
            JObj fs \<Rightarrow> map fst fs = [''level'', ''muted'']
                       \<and> typeof (getProp v ''level'') = TNumber
                       \<and> typeof (getProp v ''muted'') = TBoolean
          | _ \<Rightarrow> False))"

definition mediaShape :: "jsval \<Rightarrow> bool" where
  "mediaShape m =
     (m = JNull
      \<or> (case m of
            JObj fs \<Rightarrow> map fst fs = [''contentId'', ''contentType'', ''duration'', ''metadata'']
                       \<and> getProp m ''contentId'' \<noteq> JUndefined
                       \<and> getProp m ''contentType'' \<noteq> JUndefined
                       \<and> (getProp m ''duration'' = JNull \<or> typeof (getProp m ''duration'') = TNumber)
                       \<and> (getProp m ''metadata'' = JNull
                           \<or> (case getProp m ''metadata'' of
                                 JObj gs \<Rightarrow> map fst gs = [''title'']
                                            \<and> getProp (getProp m ''metadata'') ''title'' \<noteq> JUndefined
                               | _ \<Rightarrow> False))
          | _ \<Rightarrow> False))"

definition fullyPopulated :: "jsval \<Rightarrow> bool" where
  "fullyPopulated r =
     (case r of
        JObj fs \<Rightarrow>
          map fst fs = [''mediaSessionId'', ''playbackRate'', ''playerState'', ''currentTime'',
                        ''volume'', ''media'']
          \<and> getProp r ''mediaSessionId'' \<noteq> JUndefined
          \<and> typeof (getProp r ''playbackRate'') = TNumber
          \<and> typeof (getProp r ''playerState'') = TString
          \<and> typeof (getProp r ''currentTime'') = TNumber
          \<and> volumeShape (getProp r ''volume'')
          \<and> mediaShape (getProp r ''media'')
      | _ \<Rightarrow> False)"

text \<open>A device payload with a wrong player state and no volume, for the examples.\<close>

definition partialPayload :: jsval where
  "partialPayload =
     JObj [(''playerState'', JNum (Fin 3)), (''currentTime'', JNum (Fin 12)),
           (''media'', JObj [(''contentId'', JStr ''http://host/a.mp3''), (''duration'', JStr ''long'')])]"

section \<open>The service as interleaved segments\<close>

text \<open>
  JavaScript runs one callback at a time, so an execution of the service is a sequence
  of segments, each running from one event, timer or answer of the device to the next
  \<^verbatim>\<open>await\<close>. The segments below are those that assign a field of the service.

  The first seven belong to the device and to the timers of the transition engine: a
  status reaches \<^verbatim>\<open>_handleStatusUpdate\<close> (the device's \<^verbatim>\<open>status\<close> event, line 73, or
  the answer to a \<^verbatim>\<open>getStatus\<close> issued elsewhere, lines 794 to 847, 1012 and 1160); the
  device's \<^verbatim>\<open>finished\<close> event (line 78); its \<^verbatim>\<open>disconnect\<close> event (line 90); the
  preload timer; the end of the preload; a tick of the transition watcher; and the
  \<^verbatim>\<open>finally\<close> of the transition that holds \<^verbatim>\<open>isAutoAdvancing\<close>.

  The others are the assignments that commands, the recovery wrapper and the
  reconnection make between their awaits: \<^verbatim>\<open>this.currentDevice = device\<close> (line 748),
  \<^verbatim>\<open>_startKeepAlive\<close>, \<^verbatim>\<open>disconnect()\<close>, the recovery wrapper's restoring of queue
  and index (lines 506 and 519), the warm-up flag (lines 1112 to 1142), an assignment
  of the current index (lines 1180, 1339, 1385, 1545, 1562, 1634, 1828, 1838) or of the
  queue (line 1837) by a command, the cached player state written by \<^verbatim>\<open>pause\<close> and
  \<^verbatim>\<open>resume\<close> (lines 1237 and 1272), what \<^verbatim>\<open>stop\<close> writes once the player has stopped
  (lines 1307 to 1314), a queue operation, and \<^verbatim>\<open>setRepeatMode\<close>.
\<close>

datatype segment =
    SgStatus device devstatus
  | SgFinished device
  | SgDeviceGone device
  | SgPreloadTimer track
  | SgPreloadEnded bool int
  | SgWatchTick int
  | SgTransitionEnds
  | SgSetDevice device
  | SgStartKeepAlive
  | SgDisconnect
  | SgRestoreQueue "track list" int
  | SgWarmup bool
  | SgSetIndex int
  | SgSetQueue "track list"
  | SgPlayerState string
  | SgStopped
  | SgQueue qop
  | SgSetRepeat string

fun do_segment :: "segment \<Rightarrow> service \<Rightarrow> service" where
  "do_segment (SgStatus dev st) s = handleStatusUpdate dev st s"
| "do_segment (SgFinished dev) s =
     (case currentDevice s of
        None \<Rightarrow> s
      | Some cur \<Rightarrow> if name dev = name cur then handleTrackFinished_begin s else s)"
| "do_segment (SgDeviceGone dev) s =
     (case currentDevice s of
        None \<Rightarrow> s
      | Some cur \<Rightarrow>
          if name dev = name cur
          then s\<lparr>currentDevice := None, currentStatus := getDefaultStatus\<rparr> else s)"
| "do_segment (SgPreloadTimer t) s = preloadTimerFired t s"
| "do_segment (SgPreloadEnded acknowledged i) s = preloadEnded acknowledged i s"
| "do_segment (SgWatchTick i) s = snd (checkForTransition i s)"
| "do_segment SgTransitionEnds s = (if inFlight s > 0 then transitionDone s else s)"
| "do_segment (SgSetDevice dev) s = s\<lparr>currentDevice := Some dev\<rparr>"
| "do_segment SgStartKeepAlive s = s\<lparr>connectionKeepAlive := True\<rparr>"
| "do_segment SgDisconnect s = disconnect s"
| "do_segment (SgRestoreQueue queueBackup trackIndex) s =
     s\<lparr>queue := queueBackup, currentTrackIndex := trackIndex\<rparr>"
| "do_segment (SgWarmup b) s = s\<lparr>sessionWarmupInProgress := b\<rparr>"
| "do_segment (SgSetIndex i) s = s\<lparr>currentTrackIndex := i\<rparr>"
| "do_segment (SgSetQueue q) s = s\<lparr>queue := q\<rparr>"
| "do_segment (SgPlayerState st) s =
     s\<lparr>currentStatus := (currentStatus s)\<lparr>playerState := Some st\<rparr>\<rparr>"
| "do_segment SgStopped s =
     s\<lparr>currentStatus := (currentStatus s)\<lparr>playerState := Some ''IDLE'',
           currentTime := Some 0, media := None\<rparr>,
       currentTrackIndex := -1\<rparr>"
| "do_segment (SgQueue op) s = apply_qop op s"
| "do_segment (SgSetRepeat mode) s = (case setRepeatMode mode s of Inl e \<Rightarrow> s | Inr r \<Rightarrow> snd r)"

fun run_segments :: "segment list \<Rightarrow> service \<Rightarrow> service" where
  "run_segments [] s = s"
| "run_segments (sg # sgs) s = run_segments sgs (do_segment sg s)"

text \<open>No segment reads or sets the clock: time passes while a command waits.\<close>

lemma transitionDone_clock: "clock (transitionDone s) = clock s"
  by (simp add: transitionDone_def emit_def)

lemma handleTrackFinished_begin_clock: "clock (handleTrackFinished_begin s) = clock s"
  by (simp add: handleTrackFinished_begin_def Let_def transitionDone_def emit_def
      split: option.split)

lemma checkForTransition_clock: "clock (snd (checkForTransition i s)) = clock s"
  by (simp add: checkForTransition_def Let_def transitionDone_def emit_def)

lemma apply_qop_clock: "clock (apply_qop op s) = clock s"
  by (cases op)
     (simp_all add: shuffleQueue_def restoreQueueOrder_def addToQueue_def removeFromQueue_def
        clearQueue_def emit_def Let_def)

lemma do_segment_clock: "clock (do_segment sg s) = clock s"
  by (cases sg)
     (simp_all add: handleStatusUpdate_clock handleTrackFinished_begin_clock
        checkForTransition_clock transitionDone_clock apply_qop_clock preloadTimerFired_def
        preloadEnded_def disconnect_def setRepeatMode_def emit_def Let_def split: option.split)

lemma run_segments_clock: "clock (run_segments sgs s) = clock s"
  by (induction sgs arbitrary: s) (simp_all add: do_segment_clock)

section \<open>Playback while other segments run\<close>

text \<open>
  A command gives way at every \<^verbatim>\<open>await\<close>: until the device answers, or the timer
  fires, other segments run, and a device call that is never answered leaves the
  command waiting for ever. The await points of \<^verbatim>\<open>playMedia\<close> are: the status probe of
  \<^verbatim>\<open>_ensureSessionActive\<close> (line 1076); the load, the 800 ms timer, the stop and the
  probe of its warm-up (lines 1113 to 1124); the stop of \<^verbatim>\<open>_stopCurrentPlayback\<close>
  (line 966); the load of \<^verbatim>\<open>_playMediaDirectly\<close> (line 926); the \<open>k\<close>-th 250 ms timer
  of \<^verbatim>\<open>_verifyPlayback\<close> (lines 985 and 1021) and its \<open>k\<close>-th poll (line 997).
  \<open>AtPlayerStop\<close> is the \<^verbatim>\<open>player.stop()\<close> of \<^verbatim>\<open>skipToNext\<close> (line 1201).
\<close>

datatype await_point =
    AtProbe
  | AtWarmupLoad
  | AtWarmupWait
  | AtWarmupStop
  | AtWarmupProbe
  | AtStop
  | AtLoad
  | AtSleep nat
  | AtPoll nat
  | AtPlayerStop

text \<open>
  What happens around one run of a command: \<open>meanwhile p\<close> are the other segments
  that run while the command waits at \<open>p\<close>; \<open>answered p\<close> says whether the device
  call awaited at \<open>p\<close> is answered at all (timers always fire, and the load has its own
  10 s timeout, \<open>LoadTimeout\<close>); \<open>overrun k\<close> is by how many milliseconds the \<open>k\<close>-th
  250 ms timer fires late.
\<close>

record schedule =
  meanwhile :: "await_point \<Rightarrow> segment list"
  answered :: "await_point \<Rightarrow> bool"
  overrun :: "nat \<Rightarrow> nat"

definition amid :: "schedule \<Rightarrow> await_point \<Rightarrow> service \<Rightarrow> service" where
  "amid sch p s = run_segments (meanwhile sch p) s"

definition awaitAnswer :: "schedule \<Rightarrow> await_point \<Rightarrow> service \<Rightarrow> service option" where
  "awaitAnswer sch p s = (if answered sch p then Some (amid sch p s) else None)"

definition pollWait :: "schedule \<Rightarrow> nat \<Rightarrow> service \<Rightarrow> service" where
  "pollWait sch k s = amid sch (AtSleep k) (sleep (EvPollWait 250) (250 + overrun sch k) s)"

lemma amid_clock: "clock (amid sch p s) = clock s"
  by (simp add: amid_def run_segments_clock)

lemma pollWait_clock: "clock (pollWait sch k s) = clock s + 250 + int (overrun sch k)"
  by (simp add: pollWait_def amid_clock sleep_def emit_def)

text \<open>
  The loop of \<^verbatim>\<open>_verifyPlayback\<close> with the other segments running at its awaits. The
  result \<open>None\<close> is a loop that never returns, because a poll is never answered. The
  answer of a poll is handed to \<^verbatim>\<open>_handleStatusUpdate\<close> together with the device that
  is current when the answer arrives; without a current device \<^verbatim>\<open>getStatus\<close> throws
  at once and the round counts as a poll without an answer.
\<close>

function verifyLoop_interleaved :: "schedule \<Rightarrow> env \<Rightarrow> int \<Rightarrow> int \<Rightarrow> nat \<Rightarrow> service \<Rightarrow> (bool \<times> service) option" where
  "verifyLoop_interleaved sch e timeout start k s =
     (if clock s - start < timeout then
        (if isPlayingOrBuffering (currentStatus s) then Some (True, s)
         else
           (case currentDevice s of
              None \<Rightarrow> verifyLoop_interleaved sch e timeout start (Suc k) (pollWait sch (Suc k) s)
            | Some dev \<Rightarrow>
                if \<not> answered sch (AtPoll k) then None
                else
                  let s1 = amid sch (AtPoll k)
                             ((emit [EvGetStatus] s)\<lparr>clock := clock s + int (latency e k)\<rparr>)
                  in (case polls e k of
                        None \<Rightarrow>
                          verifyLoop_interleaved sch e timeout start (Suc k) (pollWait sch (Suc k) s1)
                      | Some polled \<Rightarrow>
                          let s2 = (case currentDevice s1 of
                                      None \<Rightarrow> s1
                                    | Some cur \<Rightarrow> handleStatusUpdate cur polled s1)
                          in if isPlayingOrBuffering polled then Some (True, s2)
                             else verifyLoop_interleaved sch e timeout start (Suc k)
                                    (pollWait sch (Suc k) s2))))
      else Some (False, s))"
  by pat_completeness auto
termination
  by (relation "measure (\<lambda>(sch, e, timeout, start, k, s). nat (timeout - (clock s - start)))")
     (auto simp add: pollWait_clock amid_clock emit_def handleStatusUpdate_clock
        split: option.split)

declare verifyLoop_interleaved.simps [simp del]

definition verifyPlayback_interleaved :: "schedule \<Rightarrow> env \<Rightarrow> service \<Rightarrow> (bool \<times> service) option" where
  "verifyPlayback_interleaved sch e s =
     (let timeout = verificationTimeout (verificationTimeoutCfg s);
          start = clock s;
          s1 = pollWait sch 0 s
      in verifyLoop_interleaved sch e timeout start 0 s1)"

definition playMediaDirectly_interleaved :: "schedule \<Rightarrow> env \<Rightarrow> track \<Rightarrow> service \<Rightarrow> ((error + outcome) \<times> service) option" where
  "playMediaDirectly_interleaved sch e t s =
     (if currentDevice s = None then Some (Inl (ChromecastError ''No device connected''), s)
      else
        let s1 = amid sch AtLoad (emit [EvLoad (url t) (contentType t) (title t)] s)
        in (case loadAck e of
              LoadErr msg \<Rightarrow> Some (Inl (ChromecastError (''Failed to play media: '' @ msg)), s1)
            | LoadTimeout \<Rightarrow>
                Some (Inl (ChromecastError ''Media load timeout''), s1\<lparr>clock := clock s1 + 10000\<rparr>)
            | LoadOk \<Rightarrow>
                (case verifyPlayback_interleaved sch e s1 of
                   None \<Rightarrow> None
                 | Some (isPlaying, s2) \<Rightarrow>
                     if \<not> isPlaying
                     then Some (Inl (ChromecastError ''Playback verification failed''), s2)
                     else Some (Inr (Success (''Playing: '' @ title t)), s2))))"

definition ensureSessionActive_interleaved :: "schedule \<Rightarrow> env \<Rightarrow> service \<Rightarrow> ((error + bool) \<times> service) option" where
  "ensureSessionActive_interleaved sch e s =
     (if currentDevice s = None then Some (Inl (ChromecastError ''No device connected''), s)
      else
        (case awaitAnswer sch AtProbe (emit [EvGetStatus] s) of
           None \<Rightarrow> None
         | Some s1 \<Rightarrow>
             (case sessionProbe e of
                HasSession \<Rightarrow> Some (Inr True, s1)
              | WarmupFailed \<Rightarrow>
                  (case awaitAnswer sch AtWarmupLoad
                          (emit [EvLoad dummyMediaUrl ''video/mp4'' ''Session Warmup'']
                             (s1\<lparr>sessionWarmupInProgress := True\<rparr>)) of
                     None \<Rightarrow> None
                   | Some s2 \<Rightarrow> Some (Inr False, s2\<lparr>sessionWarmupInProgress := False\<rparr>))
              | WarmupOk \<Rightarrow>
                  (case awaitAnswer sch AtWarmupLoad
                          (emit [EvLoad dummyMediaUrl ''video/mp4'' ''Session Warmup'']
                             (s1\<lparr>sessionWarmupInProgress := True\<rparr>)) of
                     None \<Rightarrow> None
                   | Some s2 \<Rightarrow>
                       let s3 = amid sch AtWarmupWait (sleep (EvWarmupWait 800) 800 s2)
                       in (case awaitAnswer sch AtWarmupStop (emit [EvStop] s3) of
                             None \<Rightarrow> None
                           | Some s4 \<Rightarrow>
                               (case awaitAnswer sch AtWarmupProbe (emit [EvGetStatus] s4) of
                                  None \<Rightarrow> None
                                | Some s5 \<Rightarrow>
                                    Some (Inr True, s5\<lparr>sessionWarmupInProgress := False\<rparr>)))))))"

definition stopCurrentPlayback_interleaved :: "schedule \<Rightarrow> service \<Rightarrow> service option" where
  "stopCurrentPlayback_interleaved sch s =
     (if currentDevice s = None then Some s else awaitAnswer sch AtStop (emit [EvStop] s))"

definition playMedia_interleaved :: "schedule \<Rightarrow> env \<Rightarrow> track \<Rightarrow> bool \<Rightarrow> service \<Rightarrow> ((error + bool) \<times> service) option" where
  "playMedia_interleaved sch e t forceStop s =
     (if currentDevice s = None then Some (Inl (ChromecastError ''No device connected''), s)
      else
        (case ensureSessionActive_interleaved sch e s of
           None \<Rightarrow> None
         | Some (Inl err, s1) \<Rightarrow> Some (Inl err, s1)
         | Some (Inr established, s1) \<Rightarrow>
             (case (if forceStop then stopCurrentPlayback_interleaved sch s1 else Some s1) of
                None \<Rightarrow> None
              | Some s2 \<Rightarrow>
                  (case playMediaDirectly_interleaved sch e t s2 of
                     None \<Rightarrow> None
                   | Some (Inl (ChromecastError m), s3) \<Rightarrow> Some (Inl (ChromecastError m), s3)
                   | Some (Inl err, s3) \<Rightarrow>
                       Some (Inl (ChromecastError (''Media playback failed: '' @ errorMessage err)), s3)
                   | Some (Inr result, s3) \<Rightarrow> Some (Inr True, s3)))))"

definition skipToNext_interleaved :: "schedule \<Rightarrow> env \<Rightarrow> service \<Rightarrow> ((error + outcome) \<times> service) option" where
  "skipToNext_interleaved sch e s =
     (case currentDevice s of
        None \<Rightarrow> Some (Inl (ChromecastError ''No device connected''), s)
      | Some dev \<Rightarrow>
          if length (queue s) > 0 \<and> currentTrackIndex s < int (length (queue s)) - 1 then
            (let s1 = s\<lparr>currentTrackIndex := currentTrackIndex s + 1\<rparr>
             in (case elemAt (queue s1) (currentTrackIndex s1) of
                   None \<Rightarrow> Some (Inl (ChromecastError (''Skip failed: '' @ undefinedTrackMessage)), s1)
                 | Some nextTrack \<Rightarrow>
                     (case playMedia_interleaved sch e nextTrack True s1 of
                        None \<Rightarrow> None
                      | Some (Inl err, s2) \<Rightarrow>
                          Some (Inl (ChromecastError (''Skip failed: '' @ errorMessage err)), s2)
                      | Some (Inr ok, s2) \<Rightarrow>
                          Some (Inr (Success (''Skipped to: '' @ title nextTrack)), s2))))
          else if player dev \<and> playerState (currentStatus s) = Some ''PLAYING'' then
            (case awaitAnswer sch AtPlayerStop (emit [EvPlayerStop] s) of
               None \<Rightarrow> None
             | Some s1 \<Rightarrow>
                 (case playerStopErr e of
                    Some msg \<Rightarrow> Some (Inl (ChromecastError (''Skip failed: '' @ msg)), s1)
                  | None \<Rightarrow>
                      Some (Inr (Success ''Stopped current track - no next track in queue''), s1)))
          else Some (Inr (Info ''No next track available and nothing currently playing''), s))"

definition skipToTrack_interleaved :: "schedule \<Rightarrow> env \<Rightarrow> int \<Rightarrow> service \<Rightarrow> ((error + outcome) \<times> service) option" where
  "skipToTrack_interleaved sch e trackNumber s =
     (if currentDevice s = None then Some (Inl (ChromecastError ''No device connected''), s)
      else
        let targetIndex = trackNumber - 1
        in if length (queue s) = 0 then Some (Inl (ChromecastError ''Queue is empty''), s)
           else if targetIndex < 0 \<or> targetIndex \<ge> int (length (queue s)) then
             Some (Inl (ChromecastError (''Invalid track number. Valid range: 1-'' @ show_nat (length (queue s)))), s)
           else
             (let s1 = s\<lparr>currentTrackIndex := targetIndex\<rparr>;
                  t = queue s1 ! nat (currentTrackIndex s1)
              in (case playMedia_interleaved sch e t True s1 of
                    None \<Rightarrow> None
                  | Some (Inl err, s2) \<Rightarrow>
                      Some (Inl (ChromecastError (''Skip to track failed: '' @ errorMessage err)), s2)
                  | Some (Inr ok, s2) \<Rightarrow>
                      Some (Inr (Success (''Skipped to track '' @ show_nat (nat trackNumber) @ '': '' @ title t)), s2))))"

text \<open>
  A run during which nothing else happens: every device call is answered, every timer
  is on time, and no other segment runs.
\<close>

definition alone :: schedule where
  "alone = \<lparr>meanwhile = (\<lambda>p. []), answered = (\<lambda>p. True), overrun = (\<lambda>k. 0)\<rparr>"




section \<open>The transition engine as a sequence of steps\<close>

text \<open>
  One step of the service is a segment, or a command run from its call to its return
  without another segment in between: a play (by a command or by the running
  transition), a play through the recovery wrapper, a skip or a stop.
\<close>

datatype step =
    StSegment segment
  | StPlay env track bool
  | StRecoverPlay recovery_env track "track list" int
  | StSkipNext env
  | StSkipToTrack env int
  | StStop env

fun do_step :: "step \<Rightarrow> service \<Rightarrow> service" where
  "do_step (StSegment sg) s = do_segment sg s"
| "do_step (StPlay e t force) s = snd (playMedia e t force s)"
| "do_step (StRecoverPlay r t qb i) s = snd (playTrackWithRecovery r t qb i s)"
| "do_step (StSkipNext e) s = snd (skipToNext e s)"
| "do_step (StSkipToTrack e n) s = snd (skipToTrack e n s)"
| "do_step (StStop e) s = snd (stop e s)"

fun run_steps :: "step list \<Rightarrow> service \<Rightarrow> service" where
  "run_steps [] s = s"
| "run_steps (st # sts) s = run_steps sts (do_step st s)"

text \<open>
  At most one transition is in flight, and \<^verbatim>\<open>isAutoAdvancing\<close> is set exactly while
  one is.
\<close>

definition engine_inv :: "service \<Rightarrow> bool" where
  "engine_inv s =
     (transitionsEnded s \<le> transitionsStarted s \<and> inFlight s \<le> 1
      \<and> isAutoAdvancing s = (inFlight s = 1))"

text \<open>A step that neither touches \<^verbatim>\<open>isAutoAdvancing\<close> nor starts or ends a transition.\<close>

definition neutral :: "service \<Rightarrow> service \<Rightarrow> bool" where
  "neutral s s' =
     (isAutoAdvancing s' = isAutoAdvancing s
      \<and> transitionsStarted s' = transitionsStarted s
      \<and> transitionsEnded s' = transitionsEnded s)"

section \<open>Observations on the trace\<close>

text \<open>The attempt lines and back-off waits of the recovery wrapper.\<close>

definition isRecoveryEvent :: "event \<Rightarrow> bool" where
  "isRecoveryEvent ev = (case ev of EvAttempt n \<Rightarrow> True | EvBackoff ms \<Rightarrow> True | _ \<Rightarrow> False)"

definition recoveryEvents :: "event list \<Rightarrow> event list" where
  "recoveryEvents evs = filter isRecoveryEvent evs"

text \<open>The events a step from \<open>s\<close> to \<open>s'\<close> added.\<close>

definition newEvents :: "service \<Rightarrow> service \<Rightarrow> event list" where
  "newEvents s s' = drop (length (trace s)) (trace s')"

text \<open>A step that only appends to the trace, and appends no recovery event.\<close>

definition quietly :: "service \<Rightarrow> service \<Rightarrow> bool" where
  "quietly s s' =
     (take (length (trace s)) (trace s') = trace s \<and> recoveryEvents (newEvents s s') = [])"

section \<open>Example states\<close>

definition trackA :: track where
  "trackA = \<lparr>url = ''http://host/a.mp3'', title = ''A'', artist = ''X'', contentType = ''audio/mpeg''\<rparr>"

definition trackB :: track where
  "trackB = \<lparr>url = ''http://host/b.mp3'', title = ''B'', artist = ''X'', contentType = ''audio/mpeg''\<rparr>"

definition trackC :: track where
  "trackC = \<lparr>url = ''http://host/c.mp3'', title = ''C'', artist = ''X'', contentType = ''audio/mpeg''\<rparr>"

definition livingRoom :: device where
  "livingRoom = \<lparr>name = ''Living Room'', player = True\<rparr>"

text \<open>A connected service with the queue \<open>[A, B, C]\<close>, playing nothing yet.\<close>

definition connected3 :: service where
  "connected3 = (initial_service None)
     \<lparr>currentDevice := Some livingRoom, queue := [trackA, trackB, trackC],
      currentTrackIndex := 0, connectionKeepAlive := True\<rparr>"

definition rnd_zero :: "nat \<Rightarrow> real" where
  "rnd_zero k = 0"

definition rnd_half :: "nat \<Rightarrow> real" where
  "rnd_half k = 1 / 2"

text \<open>The same service while its last entry, \<open>C\<close>, is the current one.\<close>

definition connected3_last :: service where
  "connected3_last = connected3\<lparr>currentTrackIndex := 2\<rparr>"

text \<open>The same service after one shuffle: the queue is \<open>[B, C, A]\<close>.\<close>

definition shuffled3 :: service where
  "shuffled3 = snd (shuffleQueue rnd_zero connected3)"

text \<open>A device that has a session, acknowledges the load and never answers a poll.\<close>

definition quietEnv :: env where
  "quietEnv = \<lparr>sessionProbe = HasSession, loadAck = LoadOk, polls = (\<lambda>k. None),
      latency = (\<lambda>k. 0), playerStopErr = None\<rparr>"

text \<open>No device and no saved device name: every attempt to reconnect finds nothing.\<close>

definition allFailEnv :: recovery_env where
  "allFailEnv = \<lparr>attemptEnv = (\<lambda>n. quietEnv), recovery = (\<lambda>n. NoSavedDevice)\<rparr>"

text \<open>A device that acknowledges the load and then reports itself idle at every poll.\<close>

definition idleStatus :: devstatus where
  "idleStatus = \<lparr>playerState = Some ''IDLE'', currentTime = Some 0, media = None\<rparr>"

definition idleEnv :: env where
  "idleEnv = \<lparr>sessionProbe = HasSession, loadAck = LoadOk, polls = (\<lambda>k. Some idleStatus),
      latency = (\<lambda>k. 20), playerStopErr = None\<rparr>"

text \<open>The service with its last entry current and repeat-all.\<close>

definition connected3_last_all :: service where
  "connected3_last_all = connected3_last\<lparr>repeat := RAll\<rparr>"

text \<open>A device that acknowledges the load and reports itself playing at every poll.\<close>

definition playingStatus :: devstatus where
  "playingStatus = \<lparr>playerState = Some ''PLAYING'', currentTime = Some 0,
      media = Some \<lparr>duration = Some 200\<rparr>\<rparr>"

definition playingEnv :: env where
  "playingEnv = \<lparr>sessionProbe = HasSession, loadAck = LoadOk, polls = (\<lambda>k. Some playingStatus),
      latency = (\<lambda>k. 20), playerStopErr = None\<rparr>"

definition playingRecovery :: recovery_env where
  "playingRecovery = \<lparr>attemptEnv = (\<lambda>n. playingEnv), recovery = (\<lambda>n. NoSavedDevice)\<rparr>"

text \<open>
  A status that arrives while \<open>playingStatus\<close> is cached: the device is buffering, 160
  seconds into a track of 200.
\<close>

definition lateBuffering :: devstatus where
  "lateBuffering = \<lparr>playerState = Some ''BUFFERING'', currentTime = Some 160,
      media = Some \<lparr>duration = Some 200\<rparr>\<rparr>"

definition playing3 :: service where
  "playing3 = connected3\<lparr>currentStatus := playingStatus\<rparr>"

text \<open>
  A run from the initial state: connect, load three tracks, the device reports playing,
  then buffering late in the track.
\<close>

definition catalog3 :: "catalog_track list" where
  "catalog3 =
     [\<lparr>ct_url = ''http://host/a.mp3'', ct_title = ''A'', ct_name = [], ct_artist = ''X'', ct_contentType = []\<rparr>,
      \<lparr>ct_url = ''http://host/b.mp3'', ct_title = ''B'', ct_name = [], ct_artist = ''X'', ct_contentType = []\<rparr>,
      \<lparr>ct_url = ''http://host/c.mp3'', ct_title = ''C'', ct_name = [], ct_artist = ''X'', ct_contentType = []\<rparr>]"

definition exampleRun :: "step list" where
  "exampleRun =
     [StSegment (SgSetDevice livingRoom), StSegment SgStartKeepAlive,
      StSegment (SgQueue (OpAdd True catalog3)),
      StSegment (SgStatus livingRoom playingStatus), StSegment (SgStatus livingRoom lateBuffering)]"

text \<open>
  A run in which the device raises \<^verbatim>\<open>finished\<close> while the first of three tracks is
  current.
\<close>

definition finishedRun :: "step list" where
  "finishedRun =
     [StSegment (SgSetDevice livingRoom), StSegment (SgQueue (OpAdd True catalog3)),
      StSegment (SgFinished livingRoom)]"


text \<open>A window in which the third poll is never answered.\<close>

definition thirdPollLost :: schedule where
  "thirdPollLost =
     \<lparr>meanwhile = (\<lambda>p. []), answered = (\<lambda>p. p \<noteq> AtPoll 2), overrun = (\<lambda>k. 0)\<rparr>"






section \<open>The claims in the specification's words\<close>

text \<open>
  The next-track selection rule as the specification words it: under repeat-one the
  current index again; else, before the last index, the next index; else, under
  repeat-all, index 0; else no next track.
\<close>

definition spec_next_index :: "repeat_mode \<Rightarrow> int \<Rightarrow> nat \<Rightarrow> int option" where
  "spec_next_index mode currentIndex n =
     (if mode = ROne then Some currentIndex
      else if currentIndex < int n - 1 then Some (currentIndex + 1)
      else if mode = RAll then Some 0
      else None)"

text \<open>
  What the specification says of \<^verbatim>\<open>removeAt(index)\<close> with \<open>index \<le> currentIndex\<close>:
  afterwards the current index designates the entry it designated before, or is -1 when
  that entry was the one removed.
\<close>

definition spec_removeAt_keeps_current :: "int \<Rightarrow> service \<Rightarrow> bool" where
  "spec_removeAt_keeps_current index s =
     (case removeFromQueue index s of
        Inl e \<Rightarrow> False
      | Inr r \<Rightarrow>
          (if index = currentTrackIndex s then currentTrackIndex (snd r) = -1
           else elemAt (queue (snd r)) (currentTrackIndex (snd r)) =
                elemAt (queue s) (currentTrackIndex s)))"

text \<open>
  The invariant the specification states of the snapshot: it is non-empty only while the
  shuffle flag is set.
\<close>

definition spec_snapshot_inv :: "service \<Rightarrow> bool" where
  "spec_snapshot_inv s = (originalQueue s = [] \<or> shuffle s)"

section \<open>Verified properties\<close>

subsection \<open>The Fisher-Yates loop\<close>

lemma fisherYates_length: "length (fisherYates rnd k i q) = length q"
  by (induction i arbitrary: k q) (simp_all add: Let_def)

lemma fisherYates_mset:
  assumes "\<forall>k. rnd k < 1" and "i < length q"
  shows "mset (fisherYates rnd k i q) = mset q"
  using assms(2)
proof (induction i arbitrary: k q)
  case 0
  then show ?case by simp
next
  case (Suc i')
  define j where "j = nat \<lfloor>rnd k * real (Suc i' + 1)\<rfloor>"
  have "rnd k * real (Suc i' + 1) < real (Suc i' + 1)"
    using assms(1) by (simp add: mult_less_cancel_right1)
  then have "\<lfloor>rnd k * real (Suc i' + 1)\<rfloor> < int (Suc i' + 1)"
    by (simp add: floor_less_iff)
  then have j_le: "j \<le> Suc i'"
    unfolding j_def by linarith
  then have j_lt: "j < length q"
    using Suc.prems by simp
  have swap: "mset (q[Suc i' := q ! j, j := q ! Suc i']) = mset q"
    using mset_swap [OF j_lt Suc.prems] .
  have "i' < length (q[Suc i' := q ! j, j := q ! Suc i'])"
    using Suc.prems by simp
  from Suc.IH [OF this] swap show ?case
    by (simp add: Let_def j_def)
qed

subsection \<open>Removing an entry\<close>

lemma removeFromQueue_in_range:
  assumes "0 \<le> index" and "index < int (length (queue s))"
  shows "removeFromQueue index s =
     Inr (Success (''Removed '' @ [CHR 0x22] @ title (queue s ! nat index) @ [CHR 0x22] @ '' from queue''),
          s\<lparr>queue := take (nat index) (queue s) @ drop (Suc (nat index)) (queue s),
            currentTrackIndex := (if currentTrackIndex s \<ge> index
                                  then max (-1) (currentTrackIndex s - 1)
                                  else currentTrackIndex s)\<rparr>)"
  using assms by (simp add: removeFromQueue_def Let_def)

lemma nth_remove_after:
  assumes "i < j" and "j < length xs"
  shows "(take i xs @ drop (Suc i) xs) ! (j - 1) = xs ! j"
proof -
  have "i \<le> j - 1" using assms(1) by simp
  moreover have "length (take i xs) = i" using assms by simp
  ultimately have "(take i xs @ drop (Suc i) xs) ! (j - 1) = drop (Suc i) xs ! (j - 1 - i)"
    by (simp add: nth_append)
  also have "\<dots> = xs ! (Suc i + (j - 1 - i))"
    using assms by simp
  also have "Suc i + (j - 1 - i) = j" using assms(1) by simp
  finally show ?thesis .
qed

lemma nth_remove_before:
  assumes "j < i" and "i < length xs"
  shows "(take i xs @ drop (Suc i) xs) ! j = xs ! j"
  using assms by (simp add: nth_append)

text \<open>
  C5, as amended. For an index in range at or before a valid current index,
  \<^verbatim>\<open>removeFromQueue\<close> succeeds and decrements the current index by one. When the
  removed entry was before the current one, the current index still designates the same
  entry. When the removed entry was the current one, the current index designates the
  entry that preceded it (and is -1 only when the first entry was removed).
\<close>

theorem removeFromQueue_current_index:
  assumes "0 \<le> index" and "index \<le> currentTrackIndex s"
    and "currentTrackIndex s < int (length (queue s))"
  shows "\<exists>out s'. removeFromQueue index s = Inr (out, s')
           \<and> currentTrackIndex s' = currentTrackIndex s - 1
           \<and> length (queue s') = length (queue s) - 1
           \<and> (index < currentTrackIndex s \<longrightarrow>
                elemAt (queue s') (currentTrackIndex s') = elemAt (queue s) (currentTrackIndex s))
           \<and> (index = currentTrackIndex s \<longrightarrow>
                elemAt (queue s') (currentTrackIndex s') = elemAt (queue s) (currentTrackIndex s - 1))"
proof -
  let ?c = "currentTrackIndex s"
  let ?q' = "take (nat index) (queue s) @ drop (Suc (nat index)) (queue s)"
  have rng: "index < int (length (queue s))" using assms by simp
  have len: "length ?q' = length (queue s) - 1" using assms by auto
  have before: "elemAt ?q' (?c - 1) = elemAt (queue s) ?c" if lt: "index < ?c"
  proof -
    have "nat index < nat ?c" and "nat ?c < length (queue s)" using assms lt by auto
    from nth_remove_after [OF this] have "?q' ! (nat ?c - 1) = queue s ! nat ?c" .
    moreover have "nat (?c - 1) = nat ?c - 1" by simp
    ultimately show ?thesis using assms lt len by (simp add: elemAt_def)
  qed
  have same: "elemAt ?q' (?c - 1) = elemAt (queue s) (?c - 1)" if eq: "index = ?c"
  proof (cases "?c = 0")
    case True
    then show ?thesis by (simp add: elemAt_def)
  next
    case False
    then have "nat (?c - 1) < nat index" and "nat index < length (queue s)"
      using assms eq by auto
    from nth_remove_before [OF this] show ?thesis
      using assms eq len False by (simp add: elemAt_def)
  qed
  show ?thesis
    using assms before same len by (simp add: removeFromQueue_in_range [OF assms(1) rng] max_def)
qed

theorem removeFromQueue_current_index_witness:
  "\<exists>out s'. removeFromQueue 2 connected3_last = Inr (out, s')
     \<and> currentTrackIndex s' = 1 \<and> queue s' = [trackA, trackB]
     \<and> elemAt (queue s') (currentTrackIndex s') = Some trackB"
proof -
  have h: "(0::int) \<le> 2" "2 \<le> currentTrackIndex connected3_last"
    "currentTrackIndex connected3_last < int (length (queue connected3_last))"
    by (simp_all add: connected3_last_def connected3_def initial_service_def)
  from removeFromQueue_current_index [OF h] obtain out s' where
    r: "removeFromQueue 2 connected3_last = Inr (out, s')" by blast
  then have "queue s' = [trackA, trackB]" "currentTrackIndex s' = 1"
    by (auto simp add: removeFromQueue_def Let_def connected3_last_def connected3_def
        initial_service_def split: if_splits)
  with r show ?thesis by (simp add: elemAt_def)
qed

text \<open>
  The claim of C5 as the specification states it fails: removing the current entry
  \<open>C\<close> of \<open>[A, B, C]\<close> leaves the current index at 1 (entry \<open>B\<close>), not at -1.
\<close>

theorem removeFromQueue_current_removed_counterexample:
  "\<not> spec_removeAt_keeps_current 2 connected3_last"
  by (simp add: spec_removeAt_keeps_current_def removeFromQueue_def Let_def
      connected3_last_def connected3_def initial_service_def)

subsection \<open>Shuffling and restoring\<close>

text \<open>
  C10. With \<^verbatim>\<open>Math.random()\<close> returning values in \<open>[0, 1)\<close>, \<^verbatim>\<open>shuffleQueue\<close> on a
  queue of at least two entries leaves a permutation of the entries: the same length
  and the same multiset of tracks.
\<close>

theorem shuffleQueue_permutation:
  assumes "\<forall>k. 0 \<le> rnd k \<and> rnd k < 1" and "2 \<le> length (queue s)"
  shows "mset (queue (snd (shuffleQueue rnd s))) = mset (queue s)
       \<and> length (queue (snd (shuffleQueue rnd s))) = length (queue s)"
proof -
  have lt: "\<forall>k. rnd k < 1" using assms(1) by simp
  have i: "length (queue s) - 1 < length (queue s)" using assms(2) by simp
  show ?thesis
    using assms(2) fisherYates_mset [OF lt i] by (simp add: shuffleQueue_def Let_def fisherYates_length)
qed

theorem shuffleQueue_permutation_witness:
  "(\<forall>k. 0 \<le> rnd_half k \<and> rnd_half k < 1) \<and> 2 \<le> length (queue connected3)
   \<and> queue (snd (shuffleQueue rnd_half connected3)) = [trackA, trackC, trackB]
   \<and> mset (queue (snd (shuffleQueue rnd_half connected3))) = mset (queue connected3)"
proof -
  have h1: "\<forall>k. 0 \<le> rnd_half k \<and> rnd_half k < 1" by (simp add: rnd_half_def)
  have h2: "2 \<le> length (queue connected3)" by (simp add: connected3_def initial_service_def)
  have three: "(2::nat) = Suc (Suc 0)" by simp
  have "queue (snd (shuffleQueue rnd_half connected3)) = [trackA, trackC, trackB]"
    by (simp add: shuffleQueue_def Let_def connected3_def initial_service_def rnd_half_def three)
  with h1 h2 shuffleQueue_permutation [OF h1 h2] show ?thesis by simp
qed

text \<open>
  C6, as amended. On a non-empty queue whose shuffle flag is clear, \<^verbatim>\<open>shuffleQueue\<close>
  followed at once by \<^verbatim>\<open>restoreQueueOrder\<close> gives back the entries in their order
  before the shuffle. On a queue that is already shuffled and holds a snapshot, the
  pair gives back the snapshot, the order before the first shuffle.
\<close>

theorem shuffle_then_restore:
  assumes "queue s \<noteq> []"
  shows "(\<not> shuffle s \<longrightarrow>
            queue (snd (restoreQueueOrder (snd (shuffleQueue rnd s)))) = queue s)
       \<and> (shuffle s \<and> originalQueue s \<noteq> [] \<longrightarrow>
            queue (snd (restoreQueueOrder (snd (shuffleQueue rnd s)))) = originalQueue s)"
  using assms by (auto simp add: shuffleQueue_def restoreQueueOrder_def Let_def)

theorem shuffle_then_restore_witness:
  "queue connected3 \<noteq> [] \<and> \<not> shuffle connected3
   \<and> queue (snd (shuffleQueue rnd_half connected3)) = [trackA, trackC, trackB]
   \<and> queue (snd (restoreQueueOrder (snd (shuffleQueue rnd_half connected3)))) = [trackA, trackB, trackC]"
proof -
  have h: "queue connected3 \<noteq> []" by (simp add: connected3_def initial_service_def)
  have n: "\<not> shuffle connected3" by (simp add: connected3_def initial_service_def)
  have q: "queue connected3 = [trackA, trackB, trackC]" by (simp add: connected3_def initial_service_def)
  have three: "(2::nat) = Suc (Suc 0)" by simp
  have "queue (snd (shuffleQueue rnd_half connected3)) = [trackA, trackC, trackB]"
    by (simp add: shuffleQueue_def Let_def connected3_def initial_service_def rnd_half_def three)
  with h n q shuffle_then_restore [OF h, of rnd_half] show ?thesis by simp
qed

lemma shuffled3_fields:
  "queue shuffled3 = [trackB, trackC, trackA]" "originalQueue shuffled3 = [trackA, trackB, trackC]"
  "shuffle shuffled3"
proof -
  have three: "(2::nat) = Suc (Suc 0)" by simp
  show "queue shuffled3 = [trackB, trackC, trackA]"
    by (simp add: shuffled3_def shuffleQueue_def Let_def connected3_def initial_service_def
        rnd_zero_def three)
  show "originalQueue shuffled3 = [trackA, trackB, trackC]"
    by (simp add: shuffled3_def shuffleQueue_def Let_def connected3_def initial_service_def)
  show "shuffle shuffled3"
    by (simp add: shuffled3_def shuffleQueue_def Let_def connected3_def initial_service_def)
qed

text \<open>
  The claim of C6 as stated fails on a state that is already shuffled: from the queue
  \<open>[B, C, A]\<close> (a shuffle of \<open>[A, B, C]\<close>), a second shuffle followed by a restore
  gives \<open>[A, B, C]\<close>, not the entries before that second shuffle.
\<close>

theorem shuffle_then_restore_counterexample:
  "queue (snd (restoreQueueOrder (snd (shuffleQueue rnd_half shuffled3)))) \<noteq> queue shuffled3"
proof -
  have q: "queue shuffled3 \<noteq> []" by (simp add: shuffled3_fields)
  have "queue (snd (restoreQueueOrder (snd (shuffleQueue rnd_half shuffled3)))) = originalQueue shuffled3"
    using q shuffled3_fields(2,3) by (auto simp add: shuffleQueue_def restoreQueueOrder_def Let_def)
  then show ?thesis
    by (simp add: shuffled3_fields trackA_def trackB_def)
qed

subsection \<open>The snapshot of the original order\<close>

lemma apply_qop_snapshot:
  assumes "spec_snapshot_inv s" and "op \<noteq> OpRestore"
  shows "spec_snapshot_inv (apply_qop op s)"
proof (cases op)
  case (OpShuffle rnd)
  then show ?thesis
    using assms(1) by (auto simp add: spec_snapshot_inv_def shuffleQueue_def Let_def)
next
  case OpRestore
  then show ?thesis using assms(2) by simp
next
  case (OpAdd castOk tracks)
  then show ?thesis
    using assms(1) by (auto simp add: spec_snapshot_inv_def addToQueue_def emit_def Let_def)
next
  case (OpRemove index)
  then show ?thesis
    using assms(1) by (auto simp add: spec_snapshot_inv_def removeFromQueue_def Let_def)
next
  case OpClear
  then show ?thesis
    by (simp add: spec_snapshot_inv_def clearQueue_def)
qed

lemma run_qops_snapshot:
  assumes "spec_snapshot_inv s" and "OpRestore \<notin> set ops"
  shows "spec_snapshot_inv (run_qops ops s)"
  using assms
proof (induction ops arbitrary: s)
  case Nil
  then show ?case by simp
next
  case (Cons op ops)
  from Cons.prems have "op \<noteq> OpRestore" and rest: "OpRestore \<notin> set ops" by auto
  from apply_qop_snapshot [OF Cons.prems(1) this(1)] Cons.IH rest show ?case by simp
qed

text \<open>
  C8, as amended. Shuffling, adding (which replaces the queue), removing and clearing
  keep the invariant that the snapshot is non-empty only while the shuffle flag is set:
  it holds in every state reached by these operations from a state where it holds.
  \<^verbatim>\<open>restoreQueueOrder\<close> is the exception: it never assigns the snapshot, so after it
  has cleared the flag the snapshot it restored from is still there.
\<close>

theorem snapshot_invariant_without_restore:
  assumes "spec_snapshot_inv s" and "OpRestore \<notin> set ops"
  shows "spec_snapshot_inv (run_qops ops s)
       \<and> originalQueue (snd (restoreQueueOrder (run_qops ops s))) = originalQueue (run_qops ops s)
       \<and> (originalQueue (run_qops ops s) \<noteq> [] \<longrightarrow>
            \<not> shuffle (snd (restoreQueueOrder (run_qops ops s))))"
  using run_qops_snapshot [OF assms]
  by (auto simp add: restoreQueueOrder_def)

theorem snapshot_invariant_without_restore_witness:
  "spec_snapshot_inv connected3
   \<and> OpRestore \<notin> set [OpShuffle rnd_zero, OpRemove 0]
   \<and> spec_snapshot_inv (run_qops [OpShuffle rnd_zero, OpRemove 0] connected3)
   \<and> originalQueue (run_qops [OpShuffle rnd_zero, OpRemove 0] connected3) = [trackA, trackB, trackC]
   \<and> shuffle (run_qops [OpShuffle rnd_zero, OpRemove 0] connected3)"
proof -
  have h1: "spec_snapshot_inv connected3"
    by (simp add: spec_snapshot_inv_def connected3_def initial_service_def)
  have h2: "OpRestore \<notin> set [OpShuffle rnd_zero, OpRemove 0]" by simp
  have rng: "(0::int) \<le> 0" "0 < int (length (queue shuffled3))"
    by (simp_all add: shuffled3_fields)
  have run: "run_qops [OpShuffle rnd_zero, OpRemove 0] connected3
      = apply_qop (OpRemove 0) shuffled3"
    by (simp add: shuffled3_def)
  have "originalQueue (apply_qop (OpRemove 0) shuffled3) = [trackA, trackB, trackC]"
    "shuffle (apply_qop (OpRemove 0) shuffled3)"
    using shuffled3_fields by (simp_all add: removeFromQueue_in_range [OF rng])
  with h1 h2 snapshot_invariant_without_restore [OF h1 h2] run show ?thesis by simp
qed

text \<open>
  The claim of C8 as stated fails: after a shuffle and a restore the shuffle flag is
  clear and the snapshot is still \<open>[A, B, C]\<close>.
\<close>

theorem snapshot_after_restore_counterexample:
  "\<not> spec_snapshot_inv (run_qops [OpShuffle rnd_zero, OpRestore] connected3)"
proof -
  have "run_qops [OpShuffle rnd_zero, OpRestore] connected3 = snd (restoreQueueOrder shuffled3)"
    by (simp add: shuffled3_def)
  moreover have "originalQueue (snd (restoreQueueOrder shuffled3)) = [trackA, trackB, trackC]"
    "\<not> shuffle (snd (restoreQueueOrder shuffled3))"
    using shuffled3_fields by (simp_all add: restoreQueueOrder_def)
  ultimately show ?thesis by (simp add: spec_snapshot_inv_def)
qed

subsection \<open>Disconnecting\<close>

text \<open>
  C7, as amended. \<^verbatim>\<open>disconnect()\<close> disarms the keep-alive interval and leaves no
  current device; when a device was connected the cached status becomes the default
  status, otherwise it is left as it was. The queue, the current index, the snapshot
  and the shuffle and repeat settings are not touched. A second call changes nothing.
\<close>

theorem disconnect_resets_session_only:
  "currentDevice (disconnect s) = None
   \<and> connectionKeepAlive (disconnect s) = False
   \<and> currentStatus (disconnect s) =
       (if currentDevice s = None then currentStatus s else getDefaultStatus)
   \<and> queue (disconnect s) = queue s
   \<and> currentTrackIndex (disconnect s) = currentTrackIndex s
   \<and> originalQueue (disconnect s) = originalQueue s
   \<and> shuffle (disconnect s) = shuffle s
   \<and> repeat (disconnect s) = repeat s
   \<and> disconnect (disconnect s) = disconnect s"
  by (simp add: disconnect_def Let_def)

text \<open>
  The claim of C7 as stated fails: disconnecting a service whose queue is \<open>[A, B, C]\<close>
  with current index 0 leaves that queue and that index.
\<close>

theorem disconnect_keeps_queue_counterexample:
  "\<not> (queue (disconnect connected3) = [] \<and> currentTrackIndex (disconnect connected3) = -1)"
  by (simp add: disconnect_def Let_def connected3_def initial_service_def)

subsection \<open>The status normalizer\<close>

lemma sanitizeVolume_shape: "volumeShape (sanitizeVolume v)"
  by (cases v) (auto simp add: volumeShape_def sanitizeVolume_def)

lemma orNull_defined: "orNull v \<noteq> JUndefined"
  by (cases v) (auto simp add: orNull_def)

lemma sanitizeMedia_shape: "mediaShape (sanitizeMedia m)"
  by (cases m) (auto simp add: mediaShape_def sanitizeMedia_def orNull_defined split: jsval.split)

lemma sanitizeStatus_shape: "fullyPopulated (sanitizeStatus raw)"
  by (auto simp add: sanitizeStatus_def fullyPopulated_def defaultSafeStatus_def
      sanitizeVolume_shape sanitizeMedia_shape)
     (simp_all add: volumeShape_def mediaShape_def)

lemma sanitizeStatus_non_object:
  "\<not> truthy raw \<or> typeof raw \<noteq> TObject \<Longrightarrow> sanitizeStatus raw = defaultSafeStatus"
  by (auto simp add: sanitizeStatus_def)

lemma getProp_non_object: "\<not> truthy raw \<or> typeof raw \<noteq> TObject \<Longrightarrow> getProp raw k = JUndefined"
  by (cases raw) auto

text \<open>
  C3. For every JavaScript value, \<^verbatim>\<open>_sanitizeStatus\<close> returns (it has no failing
  branch) an object with all six fields populated in the promised shape. A value that
  is \<^verbatim>\<open>null\<close>, \<^verbatim>\<open>undefined\<close>, falsy or not an object gives the default status. A
  player state that is missing or not a string becomes \<^verbatim>\<open>'IDLE'\<close>, a current time
  that is missing or not a number becomes 0, a volume that is neither an object nor a
  number becomes \<^verbatim>\<open>null\<close>, and a media that is not an object becomes \<^verbatim>\<open>null\<close>; a
  player state and a current time of the right type are kept.
\<close>

theorem sanitizeStatus_total_defaults:
  "fullyPopulated (sanitizeStatus raw)
   \<and> (\<not> truthy raw \<or> typeof raw \<noteq> TObject \<longrightarrow> sanitizeStatus raw = defaultSafeStatus)
   \<and> (typeof (getProp raw ''playerState'') \<noteq> TString \<longrightarrow>
        getProp (sanitizeStatus raw) ''playerState'' = JStr ''IDLE'')
   \<and> (typeof (getProp raw ''currentTime'') \<noteq> TNumber \<longrightarrow>
        getProp (sanitizeStatus raw) ''currentTime'' = JNum (Fin 0))
   \<and> (typeof (getProp raw ''volume'') \<noteq> TNumber
        \<and> \<not> (truthy (getProp raw ''volume'') \<and> typeof (getProp raw ''volume'') = TObject) \<longrightarrow>
        getProp (sanitizeStatus raw) ''volume'' = JNull)
   \<and> (\<not> (truthy (getProp raw ''media'') \<and> typeof (getProp raw ''media'') = TObject) \<longrightarrow>
        getProp (sanitizeStatus raw) ''media'' = JNull)
   \<and> (typeof (getProp raw ''playerState'') = TString \<longrightarrow>
        getProp (sanitizeStatus raw) ''playerState'' = getProp raw ''playerState'')
   \<and> (typeof (getProp raw ''currentTime'') = TNumber \<longrightarrow>
        getProp (sanitizeStatus raw) ''currentTime'' = getProp raw ''currentTime'')"
proof (cases "\<not> truthy raw \<or> typeof raw \<noteq> TObject")
  case True
  have undef: "\<And>k. getProp raw k = JUndefined"
    using getProp_non_object [OF True] .
  show ?thesis
    using True sanitizeStatus_shape [of raw]
    by (simp add: sanitizeStatus_non_object [OF True] undef) (simp add: defaultSafeStatus_def)
next
  case False
  then have obj: "truthy raw" "typeof raw = TObject" by auto
  have ps: "getProp (sanitizeStatus raw) ''playerState'' =
      (if typeof (getProp raw ''playerState'') = TString then getProp raw ''playerState''
       else JStr ''IDLE'')"
    using obj by (simp add: sanitizeStatus_def)
  have ct: "getProp (sanitizeStatus raw) ''currentTime'' =
      (if typeof (getProp raw ''currentTime'') = TNumber then getProp raw ''currentTime''
       else JNum (Fin 0))"
    using obj by (simp add: sanitizeStatus_def)
  have vol: "getProp (sanitizeStatus raw) ''volume'' = sanitizeVolume (getProp raw ''volume'')"
    using obj by (simp add: sanitizeStatus_def)
  have med: "getProp (sanitizeStatus raw) ''media'' = sanitizeMedia (getProp raw ''media'')"
    using obj by (simp add: sanitizeStatus_def)
  show ?thesis
    using False sanitizeStatus_shape [of raw]
    by (simp add: ps ct vol med sanitizeVolume_def sanitizeMedia_def)
qed

theorem sanitizeStatus_total_defaults_witness:
  "typeof (getProp partialPayload ''playerState'') \<noteq> TString
   \<and> getProp (sanitizeStatus partialPayload) ''playerState'' = JStr ''IDLE''
   \<and> getProp (sanitizeStatus partialPayload) ''currentTime'' = JNum (Fin 12)
   \<and> getProp (sanitizeStatus partialPayload) ''volume'' = JNull
   \<and> fullyPopulated (sanitizeStatus partialPayload)
   \<and> sanitizeStatus JNull = defaultSafeStatus
   \<and> sanitizeStatus (JStr ''PLAYING'') = defaultSafeStatus"
proof -
  have a: "typeof (getProp partialPayload ''playerState'') \<noteq> TString"
    "typeof (getProp partialPayload ''currentTime'') = TNumber"
    "getProp partialPayload ''currentTime'' = JNum (Fin 12)"
    "typeof (getProp partialPayload ''volume'') \<noteq> TNumber"
    "\<not> (truthy (getProp partialPayload ''volume'') \<and> typeof (getProp partialPayload ''volume'') = TObject)"
    by (simp_all add: partialPayload_def)
  have b: "\<not> truthy JNull \<or> typeof JNull \<noteq> TObject"
    "\<not> truthy (JStr ''PLAYING'') \<or> typeof (JStr ''PLAYING'') \<noteq> TObject"
    by simp_all
  show ?thesis
    using a b sanitizeStatus_total_defaults [of partialPayload]
      sanitizeStatus_total_defaults [of JNull] sanitizeStatus_total_defaults [of "JStr ''PLAYING''"]
    by simp
qed

subsection \<open>The recovery wrapper\<close>

lemma quietly_iff: "quietly s s' \<longleftrightarrow> (\<exists>evs. trace s' = trace s @ evs \<and> recoveryEvents evs = [])"
proof
  assume "quietly s s'"
  then have "trace s' = trace s @ newEvents s s'" "recoveryEvents (newEvents s s') = []"
    unfolding quietly_def newEvents_def by (metis append_take_drop_id, simp)
  then show "\<exists>evs. trace s' = trace s @ evs \<and> recoveryEvents evs = []" by blast
next
  assume "\<exists>evs. trace s' = trace s @ evs \<and> recoveryEvents evs = []"
  then show "quietly s s'" by (auto simp add: quietly_def newEvents_def)
qed

lemma quietly_refl: "quietly s s"
  by (simp add: quietly_iff recoveryEvents_def)

lemma quietly_trans: "quietly s s' \<Longrightarrow> quietly s' s'' \<Longrightarrow> quietly s s''"
  by (auto simp add: quietly_iff recoveryEvents_def)

lemma quietly_same_trace: "trace s' = trace s \<Longrightarrow> quietly s s'"
  by (simp add: quietly_iff recoveryEvents_def)

lemma quietly_emit: "recoveryEvents evs = [] \<Longrightarrow> quietly s (emit evs s)"
  by (auto simp add: quietly_iff emit_def)

lemma quietly_executeAdvancement_begin: "quietly s (executeAdvancement_begin s)"
  by (auto simp add: executeAdvancement_begin_def quietly_iff emit_def recoveryEvents_def
      isRecoveryEvent_def split: advance_choice.split)

lemma quietly_preloadNextTrack_begin: "quietly s (preloadNextTrack_begin s)"
  by (auto simp add: preloadNextTrack_begin_def quietly_iff emit_def recoveryEvents_def
      isRecoveryEvent_def Let_def split: option.split)

lemma quietly_handleTrackTransition: "quietly s (handleTrackTransition p c st s)"
proof -
  let ?s0 = "s\<lparr>preloadInProgress := True\<rparr>"
  let ?s1 = "if shouldPreload st s then preloadNextTrack_begin ?s0 else s"
  have a: "quietly s ?s1"
    using quietly_trans [OF quietly_same_trace quietly_preloadNextTrack_begin, of ?s0 s]
    by (simp add: quietly_refl)
  have b: "quietly ?s1 (if shouldAdvanceTraditional p c s
      then executeAdvancement_begin (?s1\<lparr>isAutoAdvancing := True\<rparr>) else ?s1)"
    using quietly_trans [OF quietly_same_trace quietly_executeAdvancement_begin,
        of "?s1\<lparr>isAutoAdvancing := True\<rparr>" ?s1]
    by (simp add: quietly_refl)
  from quietly_trans [OF a b] show ?thesis
    by (simp add: handleTrackTransition_def Let_def)
qed

lemma quietly_handleStatusUpdate: "quietly s (handleStatusUpdate dev st s)"
  using quietly_trans [OF quietly_same_trace quietly_handleTrackTransition,
      of "s\<lparr>currentStatus := st\<rparr>" s]
  by (auto simp add: handleStatusUpdate_def Let_def quietly_refl quietly_same_trace
      split: option.split)

lemma quietly_sleep_poll: "quietly s (sleep (EvPollWait n) ms s)"
  by (simp add: quietly_iff sleep_def emit_def recoveryEvents_def isRecoveryEvent_def)

lemma quietly_verifyLoop: "quietly s (snd (verifyLoop e timeout start k s))"
proof (induction e timeout start k s rule: verifyLoop.induct)
  case (1 e timeout start k s)
  show ?case
  proof (cases "clock s - start < timeout \<and> \<not> isPlayingOrBuffering (currentStatus s)")
    case False
    then show ?thesis
      by (subst verifyLoop.simps) (auto simp add: quietly_refl)
  next
    case go: True
    show ?thesis
    proof (cases "currentDevice s")
      case None
      from "1.IH"(1) [OF _ _ None] go
      have "quietly (sleep (EvPollWait 250) 250 s)
           (snd (verifyLoop e timeout start (Suc k) (sleep (EvPollWait 250) 250 s)))" by simp
      from quietly_trans [OF quietly_sleep_poll this] show ?thesis
        using go None by (subst verifyLoop.simps) simp
    next
      case (Some dev)
      define s1 where "s1 = (emit [EvGetStatus] s)\<lparr>clock := clock s + int (latency e k)\<rparr>"
      have q1: "quietly s s1"
        by (simp add: s1_def quietly_iff emit_def recoveryEvents_def isRecoveryEvent_def)
      show ?thesis
      proof (cases "polls e k")
        case None
        from "1.IH"(2) [OF _ _ Some s1_def None] go
        have "quietly (sleep (EvPollWait 250) 250 s1)
             (snd (verifyLoop e timeout start (Suc k) (sleep (EvPollWait 250) 250 s1)))" by simp
        from quietly_trans [OF q1 quietly_trans [OF quietly_sleep_poll this]] show ?thesis
          using go Some None by (subst verifyLoop.simps) (simp add: s1_def)
      next
        case polled: (Some p)
        define s2 where "s2 = handleStatusUpdate dev p s1"
        have q2: "quietly s s2"
          using quietly_trans [OF q1 quietly_handleStatusUpdate] by (simp add: s2_def)
        show ?thesis
        proof (cases "isPlayingOrBuffering p")
          case True
          then show ?thesis
            using go Some polled q2 by (subst verifyLoop.simps) (simp add: s1_def s2_def)
        next
          case False
          from "1.IH"(3) [OF _ _ Some s1_def polled s2_def False] go
          have "quietly (sleep (EvPollWait 250) 250 s2)
               (snd (verifyLoop e timeout start (Suc k) (sleep (EvPollWait 250) 250 s2)))" by simp
          from quietly_trans [OF q2 quietly_trans [OF quietly_sleep_poll this]] show ?thesis
            using go Some polled False by (subst verifyLoop.simps) (simp add: s1_def s2_def)
        qed
      qed
    qed
  qed
qed

lemma quietly_verifyPlayback: "quietly s (snd (verifyPlayback e s))"
  using quietly_trans [OF quietly_sleep_poll quietly_verifyLoop]
  by (simp add: verifyPlayback_def Let_def)

lemma quietly_load: "quietly s (emit [EvLoad u c t] s)"
  by (simp add: quietly_iff emit_def recoveryEvents_def isRecoveryEvent_def)

lemma quietly_playMediaDirectly: "quietly s (snd (playMediaDirectly e t s))"
proof (cases "currentDevice s = None")
  case True
  then show ?thesis by (simp add: playMediaDirectly_def quietly_refl)
next
  case False
  then obtain dev where dev: "currentDevice s = Some dev" by auto
  let ?s1 = "emit [EvLoad (url t) (contentType t) (title t)] s"
  have a: "quietly s ?s1" by (rule quietly_load)
  show ?thesis
  proof (cases "loadAck e")
    case LoadOk
    obtain b s2 where vp: "verifyPlayback e ?s1 = (b, s2)" by (cases "verifyPlayback e ?s1")
    have "quietly s s2"
      using quietly_trans [OF a quietly_verifyPlayback [of ?s1 e]] vp by simp
    then show ?thesis
      using dev LoadOk vp by (simp add: playMediaDirectly_def Let_def)
  next
    case (LoadErr msg)
    then show ?thesis
      using dev a by (simp add: playMediaDirectly_def Let_def)
  next
    case LoadTimeout
    have "quietly s (?s1\<lparr>clock := clock ?s1 + 10000\<rparr>)"
      using quietly_trans [OF a quietly_same_trace] by simp
    then show ?thesis
      using dev LoadTimeout by (simp add: playMediaDirectly_def Let_def)
  qed
qed

lemma quietly_ensureSessionActive: "quietly s (snd (ensureSessionActive e s))"
  by (simp add: ensureSessionActive_def Let_def quietly_iff emit_def sleep_def recoveryEvents_def
      isRecoveryEvent_def split: probe_result.split)

lemma quietly_stopCurrentPlayback: "quietly s (stopCurrentPlayback s)"
  by (simp add: stopCurrentPlayback_def quietly_iff emit_def recoveryEvents_def isRecoveryEvent_def)

lemma quietly_playMedia: "quietly s (snd (playMedia e t force s))"
proof (cases "currentDevice s = None")
  case True
  then show ?thesis by (simp add: playMedia_def quietly_refl)
next
  case False
  then obtain dev where dev: "currentDevice s = Some dev" by auto
  obtain r1 s1 where es: "ensureSessionActive e s = (r1, s1)" by (cases "ensureSessionActive e s")
  have q1: "quietly s s1" using quietly_ensureSessionActive [of s e] es by simp
  show ?thesis
  proof (cases r1)
    case (Inl err)
    then show ?thesis using dev es q1 by (simp add: playMedia_def)
  next
    case (Inr established)
    define s2 where "s2 = (if force then stopCurrentPlayback s1 else s1)"
    have q2: "quietly s s2"
      using quietly_trans [OF q1 quietly_stopCurrentPlayback] q1 by (simp add: s2_def)
    obtain r3 s3 where pd: "playMediaDirectly e t s2 = (r3, s3)" by (cases "playMediaDirectly e t s2")
    have q3: "quietly s s3"
      using quietly_trans [OF q2 quietly_playMediaDirectly [of s2 e t]] pd by simp
    have "snd (playMedia e t force s) = s3"
      using dev es Inr pd
      by (simp add: playMedia_def Let_def s2_def split: sum.split error.split)
    with q3 show ?thesis by simp
  qed
qed

lemma quietly_disconnect: "quietly s (disconnect s)"
  by (simp add: disconnect_def Let_def quietly_same_trace)

lemma quietly_playAttempt: "quietly s (snd (playAttempt r n t qb i s))"
proof -
  have pm: "\<And>s'. trace s' = trace s \<Longrightarrow>
      quietly s (snd (playMedia (attemptEnv r n) t True s'))"
    using quietly_trans [OF quietly_same_trace quietly_playMedia] by blast
  have dc: "\<And>s'. trace s' = trace s \<Longrightarrow> quietly s (disconnect s')"
    using quietly_trans [OF quietly_same_trace quietly_disconnect] by blast
  define rc where "rc =
     (if currentDevice s = None then
        (case recovery r n of
           NoSavedDevice \<Rightarrow> (None, s)
         | RecoveredFirst d \<Rightarrow> (None, s\<lparr>currentDevice := Some d, connectionKeepAlive := True\<rparr>)
         | RecoveredSecond d \<Rightarrow>
             (None, s\<lparr>queue := qb, currentTrackIndex := i,
                       currentDevice := Some d, connectionKeepAlive := True\<rparr>)
         | ReconnectThrew msg \<Rightarrow>
             (Some (ChromecastError msg), disconnect (s\<lparr>queue := qb, currentTrackIndex := i\<rparr>)))
      else (None, s))"
  have tr: "trace (snd rc) = trace s"
    by (simp add: rc_def disconnect_def Let_def split: recovery_result.split)
  obtain oe s1 where rceq: "rc = (oe, s1)" by (cases rc)
  have tr1: "trace s1 = trace s" using tr rceq by simp
  show ?thesis
  proof (cases oe)
    case (Some err)
    have "snd (playAttempt r n t qb i s) = s1"
      using rceq Some unfolding playAttempt_def rc_def [symmetric] by (simp add: Let_def)
    then show ?thesis using quietly_same_trace [OF tr1] by simp
  next
    case None
    show ?thesis
    proof (cases "currentDevice s1 = None")
      case True
      have "snd (playAttempt r n t qb i s) = s1"
        using rceq None True unfolding playAttempt_def rc_def [symmetric] by (simp add: Let_def)
      then show ?thesis using quietly_same_trace [OF tr1] by simp
    next
      case False
      then obtain dev where dev: "currentDevice s1 = Some dev" by auto
      let ?s2 = "s1\<lparr>queue := qb, currentTrackIndex := i\<rparr>"
      have "snd (playAttempt r n t qb i s) = snd (playMedia (attemptEnv r n) t True ?s2)"
        using rceq None dev unfolding playAttempt_def rc_def [symmetric]
        by (simp add: Let_def split: prod.split sum.split)
      moreover have "quietly s (snd (playMedia (attemptEnv r n) t True ?s2))"
        using pm [of ?s2] tr1 by simp
      ultimately show ?thesis by simp
    qed
  qed
qed

lemma playTrackWithRecovery_from_1:
  "playTrackWithRecovery_from r 1 t qb i s =
     (case playAttempt r 1 t qb i (emit [EvAttempt 1] s) of
        (Inr ok, s1) \<Rightarrow> (Inr (), s1)
      | (Inl e1, s1) \<Rightarrow>
          playTrackWithRecovery_from r 2 t qb i (sleep (EvBackoff 1000) 1000 s1))"
proof -
  have two: "Suc (Suc 0) = 2" by simp
  show ?thesis
    by (subst playTrackWithRecovery_from.simps)
       (simp add: maxAttempts_def two split: prod.split sum.split)
qed

lemma playTrackWithRecovery_from_2:
  "playTrackWithRecovery_from r 2 t qb i s =
     (case playAttempt r 2 t qb i (emit [EvAttempt 2] s) of
        (Inr ok, s1) \<Rightarrow> (Inr (), s1)
      | (Inl e1, s1) \<Rightarrow>
          playTrackWithRecovery_from r 3 t qb i (sleep (EvBackoff 2000) 2000 s1))"
proof -
  have three: "Suc 2 = 3" by simp
  show ?thesis
    by (subst playTrackWithRecovery_from.simps)
       (simp add: maxAttempts_def three split: prod.split sum.split)
qed

lemma playTrackWithRecovery_from_3:
  "playTrackWithRecovery_from r 3 t qb i s =
     (case playAttempt r 3 t qb i (emit [EvAttempt 3] s) of
        (Inr ok, s1) \<Rightarrow> (Inr (), s1)
      | (Inl e1, s1) \<Rightarrow> (Inl e1, s1))"
  by (subst playTrackWithRecovery_from.simps)
     (simp add: maxAttempts_def split: prod.split sum.split)

lemma playTrackWithRecovery_unrolled:
  "playTrackWithRecovery r t qb i s =
     (case playAttempt r 1 t qb i (emit [EvAttempt 1] s) of
        (Inr ok, s1) \<Rightarrow> (Inr (), s1)
      | (Inl e1, s1) \<Rightarrow>
          (case playAttempt r 2 t qb i (emit [EvAttempt 2] (sleep (EvBackoff 1000) 1000 s1)) of
             (Inr ok, s2) \<Rightarrow> (Inr (), s2)
           | (Inl e2, s2) \<Rightarrow>
               (case playAttempt r 3 t qb i (emit [EvAttempt 3] (sleep (EvBackoff 2000) 2000 s2)) of
                  (Inr ok, s3) \<Rightarrow> (Inr (), s3)
                | (Inl e3, s3) \<Rightarrow> (Inl e3, s3))))"
  by (simp only: playTrackWithRecovery_def playTrackWithRecovery_from_1
      playTrackWithRecovery_from_2 playTrackWithRecovery_from_3)

lemma recoveryEvents_append: "recoveryEvents (xs @ ys) = recoveryEvents xs @ recoveryEvents ys"
  by (simp add: recoveryEvents_def)

lemma attempt_then_quiet:
  assumes "quietly (emit [EvAttempt n] s0) s1"
  shows "\<exists>evs. trace s1 = trace s0 @ evs \<and> recoveryEvents evs = [EvAttempt n]"
proof -
  from assms obtain evs where "trace s1 = trace (emit [EvAttempt n] s0) @ evs"
    "recoveryEvents evs = []" by (auto simp add: quietly_iff)
  then have "trace s1 = trace s0 @ (EvAttempt n # evs)"
    "recoveryEvents (EvAttempt n # evs) = [EvAttempt n]"
    by (simp_all add: emit_def recoveryEvents_def isRecoveryEvent_def)
  then show ?thesis by blast
qed

lemma backoff_attempt_then_quiet:
  assumes "quietly (emit [EvAttempt n] (sleep (EvBackoff ms) ms s0)) s1"
  shows "\<exists>evs. trace s1 = trace s0 @ evs \<and> recoveryEvents evs = [EvBackoff ms, EvAttempt n]"
proof -
  from assms obtain evs where
    "trace s1 = trace (emit [EvAttempt n] (sleep (EvBackoff ms) ms s0)) @ evs"
    "recoveryEvents evs = []" by (auto simp add: quietly_iff)
  then have "trace s1 = trace s0 @ (EvBackoff ms # EvAttempt n # evs)"
    "recoveryEvents (EvBackoff ms # EvAttempt n # evs) = [EvBackoff ms, EvAttempt n]"
    by (simp_all add: emit_def sleep_def recoveryEvents_def isRecoveryEvent_def)
  then show ?thesis by blast
qed

text \<open>
  C4. \<^verbatim>\<open>_playTrackWithRecovery\<close> is its first attempt; if that fails, a wait of 1000 ms
  and the second; if that fails, a wait of 2000 ms and the third; and the error of a
  failed third attempt is its own result. Among the events it adds to the trace, the
  attempt lines and back-off waits are one of the three sequences: attempt 1; attempt
  1, 1000 ms, attempt 2; attempt 1, 1000 ms, attempt 2, 2000 ms, attempt 3. It fails
  only with the last of them: there is never a fourth attempt.
\<close>

theorem playTrackWithRecovery_three_attempts:
  "playTrackWithRecovery r t qb i s =
     (case playAttempt r 1 t qb i (emit [EvAttempt 1] s) of
        (Inr ok, s1) \<Rightarrow> (Inr (), s1)
      | (Inl e1, s1) \<Rightarrow>
          (case playAttempt r 2 t qb i (emit [EvAttempt 2] (sleep (EvBackoff 1000) 1000 s1)) of
             (Inr ok, s2) \<Rightarrow> (Inr (), s2)
           | (Inl e2, s2) \<Rightarrow>
               (case playAttempt r 3 t qb i (emit [EvAttempt 3] (sleep (EvBackoff 2000) 2000 s2)) of
                  (Inr ok, s3) \<Rightarrow> (Inr (), s3)
                | (Inl e3, s3) \<Rightarrow> (Inl e3, s3))))
   \<and> (\<exists>evs. trace (snd (playTrackWithRecovery r t qb i s)) = trace s @ evs
         \<and> (recoveryEvents evs = [EvAttempt 1]
            \<or> recoveryEvents evs = [EvAttempt 1, EvBackoff 1000, EvAttempt 2]
            \<or> recoveryEvents evs =
                [EvAttempt 1, EvBackoff 1000, EvAttempt 2, EvBackoff 2000, EvAttempt 3])
         \<and> (isl (fst (playTrackWithRecovery r t qb i s)) \<longrightarrow>
              recoveryEvents evs =
                [EvAttempt 1, EvBackoff 1000, EvAttempt 2, EvBackoff 2000, EvAttempt 3]))"
proof (rule conjI)
  show "playTrackWithRecovery r t qb i s =
     (case playAttempt r 1 t qb i (emit [EvAttempt 1] s) of
        (Inr ok, s1) \<Rightarrow> (Inr (), s1)
      | (Inl e1, s1) \<Rightarrow>
          (case playAttempt r 2 t qb i (emit [EvAttempt 2] (sleep (EvBackoff 1000) 1000 s1)) of
             (Inr ok, s2) \<Rightarrow> (Inr (), s2)
           | (Inl e2, s2) \<Rightarrow>
               (case playAttempt r 3 t qb i (emit [EvAttempt 3] (sleep (EvBackoff 2000) 2000 s2)) of
                  (Inr ok, s3) \<Rightarrow> (Inr (), s3)
                | (Inl e3, s3) \<Rightarrow> (Inl e3, s3))))"
    by (rule playTrackWithRecovery_unrolled)
next
  let ?P = "\<lambda>res evs. trace (snd res) = trace s @ evs
         \<and> (recoveryEvents evs = [EvAttempt 1]
            \<or> recoveryEvents evs = [EvAttempt 1, EvBackoff 1000, EvAttempt 2]
            \<or> recoveryEvents evs =
                [EvAttempt 1, EvBackoff 1000, EvAttempt 2, EvBackoff 2000, EvAttempt 3])
         \<and> (isl (fst res) \<longrightarrow>
              recoveryEvents evs =
                [EvAttempt 1, EvBackoff 1000, EvAttempt 2, EvBackoff 2000, EvAttempt 3])"
  obtain r1 s1 where a1: "playAttempt r 1 t qb i (emit [EvAttempt 1] s) = (r1, s1)"
    by (cases "playAttempt r 1 t qb i (emit [EvAttempt 1] s)")
  have "quietly (emit [EvAttempt 1] s) s1"
    using quietly_playAttempt [of "emit [EvAttempt 1] s" r 1 t qb i] a1 by simp
  from attempt_then_quiet [OF this] obtain evs1 where
    e1: "trace s1 = trace s @ evs1" "recoveryEvents evs1 = [EvAttempt 1]" by blast
  show "\<exists>evs. ?P (playTrackWithRecovery r t qb i s) evs"
  proof (cases r1)
    case (Inr ok)
    then have "playTrackWithRecovery r t qb i s = (Inr (), s1)"
      using a1 by (simp add: playTrackWithRecovery_unrolled)
    then show ?thesis using e1 by auto
  next
    case first: (Inl err1)
    obtain r2 s2 where a2:
      "playAttempt r 2 t qb i (emit [EvAttempt 2] (sleep (EvBackoff 1000) 1000 s1)) = (r2, s2)"
      by (cases "playAttempt r 2 t qb i (emit [EvAttempt 2] (sleep (EvBackoff 1000) 1000 s1))")
    have "quietly (emit [EvAttempt 2] (sleep (EvBackoff 1000) 1000 s1)) s2"
      using quietly_playAttempt [of "emit [EvAttempt 2] (sleep (EvBackoff 1000) 1000 s1)" r 2 t qb i]
        a2 by simp
    from backoff_attempt_then_quiet [OF this] obtain evs2 where
      e2: "trace s2 = trace s1 @ evs2" "recoveryEvents evs2 = [EvBackoff 1000, EvAttempt 2]"
      by blast
    have t2: "trace s2 = trace s @ (evs1 @ evs2)"
      "recoveryEvents (evs1 @ evs2) = [EvAttempt 1, EvBackoff 1000, EvAttempt 2]"
      using e1 e2 by (simp_all add: recoveryEvents_append)
    show ?thesis
    proof (cases r2)
      case (Inr ok)
      then have "playTrackWithRecovery r t qb i s = (Inr (), s2)"
        using a1 a2 first by (simp add: playTrackWithRecovery_unrolled)
      then show ?thesis using t2 by auto
    next
      case second: (Inl err2)
      obtain r3 s3 where a3:
        "playAttempt r 3 t qb i (emit [EvAttempt 3] (sleep (EvBackoff 2000) 2000 s2)) = (r3, s3)"
        by (cases "playAttempt r 3 t qb i (emit [EvAttempt 3] (sleep (EvBackoff 2000) 2000 s2))")
      have "quietly (emit [EvAttempt 3] (sleep (EvBackoff 2000) 2000 s2)) s3"
        using quietly_playAttempt [of "emit [EvAttempt 3] (sleep (EvBackoff 2000) 2000 s2)" r 3 t qb i]
          a3 by simp
      from backoff_attempt_then_quiet [OF this] obtain evs3 where
        e3: "trace s3 = trace s2 @ evs3" "recoveryEvents evs3 = [EvBackoff 2000, EvAttempt 3]"
        by blast
      have t3: "trace s3 = trace s @ (evs1 @ evs2 @ evs3)"
        "recoveryEvents (evs1 @ evs2 @ evs3) =
           [EvAttempt 1, EvBackoff 1000, EvAttempt 2, EvBackoff 2000, EvAttempt 3]"
        using e1 e2 e3 by (simp_all add: recoveryEvents_append)
      have "snd (playTrackWithRecovery r t qb i s) = s3"
        using a1 a2 a3 first second
        by (cases r3) (simp_all add: playTrackWithRecovery_unrolled)
      then show ?thesis using t3 by auto
    qed
  qed
qed

theorem playTrackWithRecovery_three_attempts_witness:
  "playTrackWithRecovery allFailEnv trackA [trackA] 0 (initial_service None) =
     (Inl (PlainError ''Unable to establish device connection''),
      (initial_service None)
        \<lparr>clock := 3000,
          trace := [EvAttempt 1, EvBackoff 1000, EvAttempt 2, EvBackoff 2000, EvAttempt 3]\<rparr>)"
proof -
  have a: "\<And>n s. currentDevice s = None \<Longrightarrow>
      playAttempt allFailEnv n trackA [trackA] 0 s =
        (Inl (PlainError ''Unable to establish device connection''), s)"
    by (simp add: playAttempt_def allFailEnv_def)
  from playTrackWithRecovery_three_attempts
    [of allFailEnv trackA "[trackA]" 0 "initial_service None"]
  have "playTrackWithRecovery allFailEnv trackA [trackA] 0 (initial_service None) =
     (case playAttempt allFailEnv 1 trackA [trackA] 0 (emit [EvAttempt 1] (initial_service None)) of
        (Inr ok, s1) \<Rightarrow> (Inr (), s1)
      | (Inl e1, s1) \<Rightarrow>
          (case playAttempt allFailEnv 2 trackA [trackA] 0
                  (emit [EvAttempt 2] (sleep (EvBackoff 1000) 1000 s1)) of
             (Inr ok, s2) \<Rightarrow> (Inr (), s2)
           | (Inl e2, s2) \<Rightarrow>
               (case playAttempt allFailEnv 3 trackA [trackA] 0
                       (emit [EvAttempt 3] (sleep (EvBackoff 2000) 2000 s2)) of
                  (Inr ok, s3) \<Rightarrow> (Inr (), s3)
                | (Inl e3, s3) \<Rightarrow> (Inl e3, s3))))"
    by (rule conjunct1)
  then show ?thesis
    by (simp add: a emit_def sleep_def initial_service_def)
qed

subsection \<open>The segments that take the flag\<close>

text \<open>
  A watcher tick and the \<^verbatim>\<open>finished\<close> handler do nothing while \<^verbatim>\<open>isAutoAdvancing\<close>
  is set. A \<^verbatim>\<open>finished\<close> handler that finds it clear takes it and either keeps it, or
  releases it before it returns; in both cases it may have assigned the current index.
\<close>

lemma checkForTransition_flag_set:
  "isAutoAdvancing s \<Longrightarrow> checkForTransition i s = (WatchCancelled, s)"
  by (simp add: checkForTransition_def)

lemma handleTrackFinished_begin_flag_set:
  "isAutoAdvancing s \<Longrightarrow> handleTrackFinished_begin s = s"
  by (simp add: handleTrackFinished_begin_def)

lemma handleTrackFinished_begin_cases:
  assumes "\<not> isAutoAdvancing s"
  shows "(\<exists>j. handleTrackFinished_begin s =
            (emit [EvSpawnFinished] (s\<lparr>isAutoAdvancing := True\<rparr>))\<lparr>currentTrackIndex := j\<rparr>)
       \<or> (\<exists>j. handleTrackFinished_begin s =
            transitionDone
              ((emit [EvSpawnFinished] (s\<lparr>isAutoAdvancing := True\<rparr>))\<lparr>currentTrackIndex := j\<rparr>))"
proof -
  define s0 where "s0 = emit [EvSpawnFinished] (s\<lparr>isAutoAdvancing := True\<rparr>)"
  define held where "held = (\<lambda>x. \<exists>j. x = s0\<lparr>currentTrackIndex := j\<rparr>)"
  define ended where "ended = (\<lambda>x. \<exists>j. x = transitionDone (s0\<lparr>currentTrackIndex := j\<rparr>))"
  have h0: "held s0"
    unfolding held_def by (rule exI [of _ "currentTrackIndex s0"]) simp
  have h1: "held (s0\<lparr>currentTrackIndex := j\<rparr>)" for j
    unfolding held_def by blast
  have e0: "ended (transitionDone s0)"
    unfolding ended_def by (rule exI [of _ "currentTrackIndex s0"]) simp
  have e1: "ended (transitionDone (s0\<lparr>currentTrackIndex := j\<rparr>))" for j
    unfolding ended_def by blast
  have eq: "handleTrackFinished_begin s =
     (if repeat s0 = ROne \<and> currentTrackIndex s0 \<ge> 0 then
        (case elemAt (queue s0) (currentTrackIndex s0) of
           None \<Rightarrow> transitionDone s0
         | Some currentTrack \<Rightarrow> s0)
      else if length (queue s0) > 0 \<and> currentTrackIndex s0 < int (length (queue s0)) - 1 then
        (let s1 = s0\<lparr>currentTrackIndex := currentTrackIndex s0 + 1\<rparr>
         in (case elemAt (queue s1) (currentTrackIndex s1) of
               None \<Rightarrow> transitionDone s1
             | Some nextTrack \<Rightarrow> s1))
      else if repeat s0 = RAll \<and> length (queue s0) > 0 then
        (let s1 = s0\<lparr>currentTrackIndex := 0\<rparr>
         in (case elemAt (queue s1) 0 of
               None \<Rightarrow> transitionDone s1
             | Some firstTrack \<Rightarrow> s1))
      else transitionDone s0)"
    using assms unfolding handleTrackFinished_begin_def s0_def by (simp only: Let_def if_False)
  have "held (handleTrackFinished_begin s) \<or> ended (handleTrackFinished_begin s)"
    unfolding eq Let_def using h0 h1 e0 e1 by (simp split: option.split)
  then show ?thesis
    unfolding held_def ended_def s0_def .
qed

subsection \<open>Playback verification\<close>

lemma executeAdvancement_begin_fields:
  "currentDevice (executeAdvancement_begin s) = currentDevice s"
  "currentStatus (executeAdvancement_begin s) = currentStatus s"
  "verificationTimeoutCfg (executeAdvancement_begin s) = verificationTimeoutCfg s"
  "queue (executeAdvancement_begin s) = queue s"
  by (simp_all add: executeAdvancement_begin_def emit_def split: advance_choice.split)

lemma preloadNextTrack_begin_fields:
  "currentDevice (preloadNextTrack_begin s) = currentDevice s"
  "currentStatus (preloadNextTrack_begin s) = currentStatus s"
  "verificationTimeoutCfg (preloadNextTrack_begin s) = verificationTimeoutCfg s"
  "queue (preloadNextTrack_begin s) = queue s"
  "currentTrackIndex (preloadNextTrack_begin s) = currentTrackIndex s"
  "isAutoAdvancing (preloadNextTrack_begin s) = isAutoAdvancing s"
  by (simp_all add: preloadNextTrack_begin_def emit_def Let_def split: option.split)

lemma handleTrackTransition_fields:
  "currentDevice (handleTrackTransition p c st s) = currentDevice s"
  "currentStatus (handleTrackTransition p c st s) = currentStatus s"
  "verificationTimeoutCfg (handleTrackTransition p c st s) = verificationTimeoutCfg s"
  "queue (handleTrackTransition p c st s) = queue s"
  by (simp_all add: handleTrackTransition_def Let_def executeAdvancement_begin_fields
      preloadNextTrack_begin_fields)



lemma handleStatusUpdate_status:
  "currentDevice s = Some dev \<Longrightarrow> currentStatus (handleStatusUpdate dev st s) = st"
  by (simp add: handleStatusUpdate_def Let_def handleTrackTransition_fields split: option.split)


lemma sleep_fields:
  "currentTrackIndex (sleep ev ms s) = currentTrackIndex s"
  "currentStatus (sleep ev ms s) = currentStatus s"
  "currentDevice (sleep ev ms s) = currentDevice s"
  "verificationTimeoutCfg (sleep ev ms s) = verificationTimeoutCfg s"
  "clock (sleep ev ms s) = clock s + int ms"
  by (simp_all add: sleep_def emit_def)






lemma transitionsStarted_emit:
  "transitionsStarted (emit evs s) = transitionsStarted s + length (filter isTransitionStart evs)"
  by (simp add: transitionsStarted_def emit_def)

lemma transitionsStarted_update [simp]:
  "transitionsStarted (s\<lparr>isAutoAdvancing := b\<rparr>) = transitionsStarted s"
  "transitionsStarted (s\<lparr>currentTrackIndex := i\<rparr>) = transitionsStarted s"
  "transitionsStarted (s\<lparr>preloadInProgress := b\<rparr>) = transitionsStarted s"
  "transitionsStarted (s\<lparr>currentStatus := st\<rparr>) = transitionsStarted s"
  "transitionsStarted (s\<lparr>sessionWarmupInProgress := b\<rparr>) = transitionsStarted s"
  "transitionsStarted (s\<lparr>clock := c\<rparr>) = transitionsStarted s"
  by (simp_all add: transitionsStarted_def)

lemma transitionsStarted_transitionDone:
  "transitionsStarted (transitionDone s) = transitionsStarted s"
  by (simp add: transitionDone_def transitionsStarted_emit isTransitionStart_def)























text \<open>
  A cached status that is playing or buffering ends the loop with \<^verbatim>\<open>true\<close> before
  any poll; a poll that is never answered leaves the loop waiting.
\<close>

lemma verifyLoop_interleaved_cached:
  "clock s - start < timeout \<Longrightarrow> isPlayingOrBuffering (currentStatus s) \<Longrightarrow>
   verifyLoop_interleaved sch e timeout start k s = Some (True, s)"
  by (subst verifyLoop_interleaved.simps) simp

lemma verifyLoop_interleaved_unanswered:
  "clock s - start < timeout \<Longrightarrow> \<not> isPlayingOrBuffering (currentStatus s) \<Longrightarrow>
   currentDevice s = Some dev \<Longrightarrow> \<not> answered sch (AtPoll k) \<Longrightarrow>
   verifyLoop_interleaved sch e timeout start k s = None"
  by (subst verifyLoop_interleaved.simps) simp

lemma lost_poll_never_returns:
  "skipToTrack_interleaved thirdPollLost idleEnv 1 connected3 = None"
  by code_simp

text \<open>
  When nothing else happens during a command (\<open>alone\<close>), the interleaved functions are
  the functions of the playback controller.
\<close>

lemma amid_alone: "amid alone p s = s"
  by (simp add: amid_def alone_def)

lemma pollWait_alone: "pollWait alone k s = sleep (EvPollWait 250) 250 s"
  by (simp add: pollWait_def amid_alone) (simp add: alone_def)

lemma awaitAnswer_alone: "awaitAnswer alone p s = Some s"
  by (simp add: awaitAnswer_def amid_alone) (simp add: alone_def)

lemma verifyLoop_interleaved_alone:
  "verifyLoop_interleaved alone e timeout start k s = Some (verifyLoop e timeout start k s)"
proof (induction e timeout start k s rule: verifyLoop.induct)
  case (1 e timeout start k s)
  show ?case
  proof (cases "clock s - start < timeout \<and> \<not> isPlayingOrBuffering (currentStatus s)")
    case False
    then show ?thesis
      by (subst verifyLoop_interleaved.simps, subst verifyLoop.simps) auto
  next
    case go: True
    then have go1: "clock s - start < timeout" and go2: "\<not> isPlayingOrBuffering (currentStatus s)"
      by simp_all
    have ans: "answered alone (AtPoll k)" by (simp add: alone_def)
    show ?thesis
    proof (cases "currentDevice s")
      case None
      from "1.IH"(1) [OF go1 go2 None] show ?thesis
        using go None
        by (subst verifyLoop_interleaved.simps, subst verifyLoop.simps) (simp add: pollWait_alone)
    next
      case (Some dev)
      define s1 where "s1 = (emit [EvGetStatus] s)\<lparr>clock := clock s + int (latency e k)\<rparr>"
      have d1: "currentDevice s1 = Some dev" by (simp add: s1_def emit_def Some)
      show ?thesis
      proof (cases "polls e k")
        case None
        from "1.IH"(2) [OF go1 go2 Some s1_def None] show ?thesis
          using go Some None ans
          by (subst verifyLoop_interleaved.simps, subst verifyLoop.simps)
             (simp add: pollWait_alone amid_alone s1_def [symmetric] Let_def)
      next
        case p: (Some st)
        define s2 where "s2 = handleStatusUpdate dev st s1"
        show ?thesis
        proof (cases "isPlayingOrBuffering st")
          case True
          then show ?thesis
            using go Some p ans d1
            by (subst verifyLoop_interleaved.simps, subst verifyLoop.simps)
               (simp add: amid_alone s1_def [symmetric] Let_def)
        next
          case False
          from "1.IH"(3) [OF go1 go2 Some s1_def p s2_def False] show ?thesis
            using go Some p ans d1 False
            by (subst verifyLoop_interleaved.simps, subst verifyLoop.simps)
               (simp add: pollWait_alone amid_alone s1_def [symmetric] s2_def [symmetric] Let_def)
        qed
      qed
    qed
  qed
qed

lemma playMediaDirectly_interleaved_alone:
  "playMediaDirectly_interleaved alone e t s = Some (playMediaDirectly e t s)"
  by (simp add: playMediaDirectly_interleaved_def playMediaDirectly_def
      verifyPlayback_interleaved_def verifyPlayback_def verifyLoop_interleaved_alone
      pollWait_alone amid_alone Let_def split: load_result.split prod.split)

lemma ensureSessionActive_interleaved_alone:
  "ensureSessionActive_interleaved alone e s = Some (ensureSessionActive e s)"
  by (simp add: ensureSessionActive_interleaved_def ensureSessionActive_def awaitAnswer_alone
      amid_alone Let_def emit_def sleep_def split: probe_result.split)

lemma stopCurrentPlayback_interleaved_alone:
  "stopCurrentPlayback_interleaved alone s = Some (stopCurrentPlayback s)"
  by (simp add: stopCurrentPlayback_interleaved_def stopCurrentPlayback_def awaitAnswer_alone)

lemma playMedia_interleaved_alone:
  "playMedia_interleaved alone e t force s = Some (playMedia e t force s)"
  by (simp add: playMedia_interleaved_def playMedia_def ensureSessionActive_interleaved_alone
      stopCurrentPlayback_interleaved_alone playMediaDirectly_interleaved_alone Let_def
      split: prod.split sum.split error.split)

lemma skipToTrack_interleaved_alone:
  "skipToTrack_interleaved alone e n s = Some (skipToTrack e n s)"
  by (simp add: skipToTrack_interleaved_def skipToTrack_def playMedia_interleaved_alone Let_def
      split: prod.split sum.split)

lemma skipToNext_interleaved_alone:
  "skipToNext_interleaved alone e s = Some (skipToNext e s)"
  by (simp add: skipToNext_interleaved_def skipToNext_def playMedia_interleaved_alone
      awaitAnswer_alone Let_def split: option.split prod.split sum.split)




subsection \<open>Choosing the next track\<close>

lemma chooseAdvancement_valid:
  assumes "0 \<le> currentTrackIndex s" and "currentTrackIndex s < int (length (queue s))"
  shows "chooseAdvancement s =
     (if repeat s = ROne then Replay (queue s ! nat (currentTrackIndex s)) (currentTrackIndex s)
      else if currentTrackIndex s < int (length (queue s)) - 1
        then Advance (queue s ! nat (currentTrackIndex s + 1)) (currentTrackIndex s + 1)
      else if repeat s = RAll then WrapAround (queue s ! 0)
      else QueueFinished)"
  using assms by (auto simp add: chooseAdvancement_def Let_def elemAt_def)

lemma executeAdvancement_rule:
  assumes "0 \<le> currentTrackIndex s" and "currentTrackIndex s < int (length (queue s))"
  shows "executeAdvancement r s =
     (case spec_next_index (repeat s) (currentTrackIndex s) (length (queue s)) of
        None \<Rightarrow> s\<lparr>isAutoAdvancing := False\<rparr>
      | Some i \<Rightarrow>
          (snd (playTrackWithRecovery r (queue s ! nat i) (queue s) i (s\<lparr>currentTrackIndex := i\<rparr>)))
          \<lparr>isAutoAdvancing := False\<rparr>)"
  using assms
  by (simp add: executeAdvancement_def Let_def chooseAdvancement_valid [OF assms] spec_next_index_def)

lemma handleTrackFinished_rule:
  assumes "0 \<le> currentTrackIndex s" and "currentTrackIndex s < int (length (queue s))"
    and "\<not> isAutoAdvancing s"
  shows "handleTrackFinished e s =
     (case spec_next_index (repeat s) (currentTrackIndex s) (length (queue s)) of
        None \<Rightarrow> s\<lparr>isAutoAdvancing := False\<rparr>
      | Some i \<Rightarrow>
          (snd (playMedia e (queue s ! nat i) True (s\<lparr>isAutoAdvancing := True, currentTrackIndex := i\<rparr>)))
          \<lparr>isAutoAdvancing := False\<rparr>)"
  using assms
  by (auto simp add: handleTrackFinished_def Let_def spec_next_index_def elemAt_def)

lemma skipToNext_rule:
  assumes "0 \<le> currentTrackIndex s" and "currentTrackIndex s < int (length (queue s))"
    and "currentDevice s = Some dev"
  shows "skipToNext e s =
     (case spec_next_index RNone (currentTrackIndex s) (length (queue s)) of
        None \<Rightarrow>
          if player dev \<and> playerState (currentStatus s) = Some ''PLAYING'' then
            (case playerStopErr e of
               Some msg \<Rightarrow> (Inl (ChromecastError (''Skip failed: '' @ msg)), emit [EvPlayerStop] s)
             | None \<Rightarrow>
                 (Inr (Success ''Stopped current track - no next track in queue''), emit [EvPlayerStop] s))
          else (Inr (Info ''No next track available and nothing currently playing''), s)
      | Some i \<Rightarrow>
          (case playMedia e (queue s ! nat i) True (s\<lparr>currentTrackIndex := i\<rparr>) of
             (Inl err, s2) \<Rightarrow> (Inl (ChromecastError (''Skip failed: '' @ errorMessage err)), s2)
           | (Inr ok, s2) \<Rightarrow> (Inr (Success (''Skipped to: '' @ title (queue s ! nat i))), s2)))"
proof -
  have "length (queue s) > 0" using assms by auto
  then show ?thesis
    using assms by (simp add: skipToNext_def Let_def spec_next_index_def elemAt_def)
qed

text \<open>
  C1, as amended. In a state whose current index designates an entry of the queue, the
  automatic advance, both the fallback \<^verbatim>\<open>_executeAdvancement\<close> and the handler of the
  device's \<^verbatim>\<open>finished\<close> event, plays the entry the rule selects: the current one
  again under repeat-one, else the next one, else the first one under repeat-all, else
  nothing (queue finished). \<^verbatim>\<open>skipToNext\<close> does not read the repeat mode: it follows
  the rule as if the repeat mode were \<^verbatim>\<open>none\<close>, playing the next entry when there is
  one and otherwise stopping the current media (when it is playing) or reporting that
  there is no next track.
\<close>

theorem advance_follows_rule_skip_ignores_repeat:
  assumes "0 \<le> currentTrackIndex s" and "currentTrackIndex s < int (length (queue s))"
  shows "executeAdvancement r s =
     (case spec_next_index (repeat s) (currentTrackIndex s) (length (queue s)) of
        None \<Rightarrow> s\<lparr>isAutoAdvancing := False\<rparr>
      | Some i \<Rightarrow>
          (snd (playTrackWithRecovery r (queue s ! nat i) (queue s) i (s\<lparr>currentTrackIndex := i\<rparr>)))
          \<lparr>isAutoAdvancing := False\<rparr>)
   \<and> (\<not> isAutoAdvancing s \<longrightarrow> handleTrackFinished e s =
     (case spec_next_index (repeat s) (currentTrackIndex s) (length (queue s)) of
        None \<Rightarrow> s\<lparr>isAutoAdvancing := False\<rparr>
      | Some i \<Rightarrow>
          (snd (playMedia e (queue s ! nat i) True (s\<lparr>isAutoAdvancing := True, currentTrackIndex := i\<rparr>)))
          \<lparr>isAutoAdvancing := False\<rparr>))
   \<and> (currentDevice s = Some dev \<longrightarrow> skipToNext e s =
     (case spec_next_index RNone (currentTrackIndex s) (length (queue s)) of
        None \<Rightarrow>
          if player dev \<and> playerState (currentStatus s) = Some ''PLAYING'' then
            (case playerStopErr e of
               Some msg \<Rightarrow> (Inl (ChromecastError (''Skip failed: '' @ msg)), emit [EvPlayerStop] s)
             | None \<Rightarrow>
                 (Inr (Success ''Stopped current track - no next track in queue''), emit [EvPlayerStop] s))
          else (Inr (Info ''No next track available and nothing currently playing''), s)
      | Some i \<Rightarrow>
          (case playMedia e (queue s ! nat i) True (s\<lparr>currentTrackIndex := i\<rparr>) of
             (Inl err, s2) \<Rightarrow> (Inl (ChromecastError (''Skip failed: '' @ errorMessage err)), s2)
           | (Inr ok, s2) \<Rightarrow> (Inr (Success (''Skipped to: '' @ title (queue s ! nat i))), s2))))"
  using executeAdvancement_rule [OF assms] handleTrackFinished_rule [OF assms]
    skipToNext_rule [OF assms]
  by blast

lemma connected3_last_all_fields:
  "currentTrackIndex connected3_last_all = 2" "queue connected3_last_all = [trackA, trackB, trackC]"
  "repeat connected3_last_all = RAll" "currentDevice connected3_last_all = Some livingRoom"
  "currentStatus connected3_last_all = getDefaultStatus" "isAutoAdvancing connected3_last_all = False"
  "trace connected3_last_all = []" "clock connected3_last_all = 0"
  "verificationTimeoutCfg connected3_last_all = None"
  "sessionWarmupInProgress connected3_last_all = False"
  by (simp_all add: connected3_last_all_def connected3_last_def connected3_def initial_service_def)

theorem advance_follows_rule_skip_ignores_repeat_witness:
  "0 \<le> currentTrackIndex connected3_last_all
   \<and> currentTrackIndex connected3_last_all < int (length (queue connected3_last_all))
   \<and> spec_next_index (repeat connected3_last_all) (currentTrackIndex connected3_last_all)
        (length (queue connected3_last_all)) = Some 0
   \<and> currentTrackIndex (executeAdvancement playingRecovery connected3_last_all) = 0
   \<and> trace (executeAdvancement playingRecovery connected3_last_all) =
       [EvAttempt 1, EvGetStatus, EvStop, EvLoad ''http://host/a.mp3'' ''audio/mpeg'' ''A'',
        EvPollWait 250, EvGetStatus]"
proof -
  have h: "0 \<le> currentTrackIndex connected3_last_all"
    "currentTrackIndex connected3_last_all < int (length (queue connected3_last_all))"
    by (simp_all add: connected3_last_all_fields)
  have sel: "spec_next_index (repeat connected3_last_all) (currentTrackIndex connected3_last_all)
        (length (queue connected3_last_all)) = Some 0"
    by (simp add: connected3_last_all_fields spec_next_index_def)
  note rule = advance_follows_rule_skip_ignores_repeat
    [OF h, of playingRecovery quietEnv livingRoom]
  have run: "executeAdvancement playingRecovery connected3_last_all =
      (snd (playTrackWithRecovery playingRecovery trackA [trackA, trackB, trackC] 0
              (connected3_last_all\<lparr>currentTrackIndex := 0\<rparr>)))
      \<lparr>isAutoAdvancing := False\<rparr>"
    using conjunct1 [OF rule] unfolding sel by (simp add: connected3_last_all_fields)
  have ev: "snd (playTrackWithRecovery playingRecovery trackA [trackA, trackB, trackC] 0
              (connected3_last_all\<lparr>currentTrackIndex := 0\<rparr>)) =
      connected3_last_all
        \<lparr>currentTrackIndex := 0, currentStatus := playingStatus, clock := 270,
          trace := [EvAttempt 1, EvGetStatus, EvStop,
                    EvLoad ''http://host/a.mp3'' ''audio/mpeg'' ''A'', EvPollWait 250, EvGetStatus]\<rparr>"
    by (simp add: playTrackWithRecovery_unrolled playAttempt_def playMedia_def
        ensureSessionActive_def stopCurrentPlayback_def playMediaDirectly_def verifyPlayback_def
        verifyLoop.simps handleStatusUpdate_def handleTrackTransition_def shouldPreload_def
        shouldAdvanceTraditional_def verificationTimeout_def isPlayingOrBuffering_def
        emit_def sleep_def Let_def playingRecovery_def playingEnv_def playingStatus_def
        connected3_last_all_def connected3_last_def connected3_def initial_service_def
        getDefaultStatus_def livingRoom_def trackA_def)
  show ?thesis
    using h sel by (simp add: run ev connected3_last_all_fields)
qed

text \<open>
  The claim of C1 as stated fails for \<^verbatim>\<open>skipToNext\<close>: on the queue \<open>[A, B, C]\<close> with
  the last entry current and repeat-all, the rule selects index 0, but \<^verbatim>\<open>skipToNext\<close>
  reports that there is no next track and leaves the state as it was (current index 2,
  nothing sent to the device).
\<close>

theorem skipToNext_repeat_all_counterexample:
  "spec_next_index (repeat connected3_last_all) (currentTrackIndex connected3_last_all)
        (length (queue connected3_last_all)) = Some 0
   \<and> skipToNext quietEnv connected3_last_all =
       (Inr (Info ''No next track available and nothing currently playing''), connected3_last_all)
   \<and> currentTrackIndex (snd (skipToNext quietEnv connected3_last_all)) \<noteq> 0"
  by (simp add: spec_next_index_def skipToNext_def connected3_last_all_fields getDefaultStatus_def)

subsection \<open>Mutual exclusion of the transitions\<close>

lemma neutral_refl: "neutral s s"
  by (simp add: neutral_def)

lemma neutral_trans: "neutral s s' \<Longrightarrow> neutral s' s'' \<Longrightarrow> neutral s s''"
  by (simp add: neutral_def)

lemma engine_inv_neutral: "engine_inv s \<Longrightarrow> neutral s s' \<Longrightarrow> engine_inv s'"
  by (simp add: engine_inv_def neutral_def inFlight_def)

lemma neutral_same:
  "trace s' = trace s \<Longrightarrow> isAutoAdvancing s' = isAutoAdvancing s \<Longrightarrow> neutral s s'"
  by (simp add: neutral_def transitionsStarted_def transitionsEnded_def)

lemma neutral_emit:
  "\<forall>ev \<in> set evs. \<not> isTransitionStart ev \<and> \<not> isTransitionEnd ev \<Longrightarrow> neutral s (emit evs s)"
  by (simp add: neutral_def transitionsStarted_def transitionsEnded_def emit_def)

lemma neutral_sleep:
  "\<not> isTransitionStart ev \<Longrightarrow> \<not> isTransitionEnd ev \<Longrightarrow> neutral s (sleep ev ms s)"
  by (simp add: neutral_def transitionsStarted_def transitionsEnded_def emit_def sleep_def)

lemma neutral_preloadNextTrack_begin: "neutral s (preloadNextTrack_begin s)"
  by (simp add: neutral_def transitionsStarted_def transitionsEnded_def emit_def
      preloadNextTrack_begin_def Let_def isTransitionStart_def isTransitionEnd_def
      split: option.split)

text \<open>While the flag is set a status update starts nothing.\<close>

lemma handleTrackTransition_flag_set:
  "isAutoAdvancing s \<Longrightarrow> handleTrackTransition p c st s = s"
  by (simp add: handleTrackTransition_def Let_def shouldPreload_def shouldAdvanceTraditional_def
      split: option.split)

lemma handleStatusUpdate_flag_set:
  "isAutoAdvancing s \<Longrightarrow>
   handleStatusUpdate dev st s = s \<or> handleStatusUpdate dev st s = s\<lparr>currentStatus := st\<rparr>"
  by (simp add: handleStatusUpdate_def Let_def handleTrackTransition_flag_set split: option.split)

lemma handleStatusUpdate_flag_neutral:
  "isAutoAdvancing s \<Longrightarrow> neutral s (handleStatusUpdate dev st s)"
  using handleStatusUpdate_flag_set [of s dev st]
  by (auto simp add: neutral_refl neutral_same)

lemma engine_inv_spawn:
  assumes "engine_inv s" and "\<not> isAutoAdvancing s" and "isTransitionStart ev"
    and "\<not> isTransitionEnd ev" and "isAutoAdvancing s'" and "trace s' = trace s @ [ev]"
  shows "engine_inv s'"
proof -
  define a where "a = transitionsStarted s"
  define b where "b = transitionsEnded s"
  have "transitionsStarted s' = Suc a" "transitionsEnded s' = b"
    using assms(3,4,6) by (simp_all add: a_def b_def transitionsStarted_def transitionsEnded_def)
  moreover have "b \<le> a" "a - b \<le> 1" "a - b \<noteq> 1"
    using assms(1,2) by (simp_all add: engine_inv_def inFlight_def a_def b_def)
  ultimately show ?thesis
    using assms(5) by (simp add: engine_inv_def inFlight_def) linarith
qed

lemma executeAdvancement_begin_inv:
  assumes "engine_inv s" and "\<not> isAutoAdvancing s"
  shows "engine_inv (executeAdvancement_begin (s\<lparr>isAutoAdvancing := True\<rparr>))"
proof -
  let ?s = "s\<lparr>isAutoAdvancing := True\<rparr>"
  note spawn = engine_inv_spawn [OF assms, of EvSpawnAdvance]
  have cleared: "engine_inv (?s\<lparr>isAutoAdvancing := False\<rparr>)"
    using engine_inv_neutral [OF assms(1) neutral_same, of "?s\<lparr>isAutoAdvancing := False\<rparr>"]
      assms(2) by simp
  show ?thesis
  proof (cases "chooseAdvancement ?s")
    case (Replay t i)
    then show ?thesis
      by (simp add: executeAdvancement_begin_def)
         (rule spawn, simp_all add: emit_def isTransitionStart_def isTransitionEnd_def)
  next
    case (Advance t i)
    then show ?thesis
      by (simp add: executeAdvancement_begin_def)
         (rule spawn, simp_all add: emit_def isTransitionStart_def isTransitionEnd_def)
  next
    case (WrapAround t)
    then show ?thesis
      by (simp add: executeAdvancement_begin_def)
         (rule spawn, simp_all add: emit_def isTransitionStart_def isTransitionEnd_def)
  next
    case QueueFinished
    then show ?thesis using cleared by (simp add: executeAdvancement_begin_def)
  next
    case AdvanceThrew
    then show ?thesis using cleared by (simp add: executeAdvancement_begin_def)
  qed
qed

lemma handleTrackTransition_inv:
  assumes "engine_inv s"
  shows "engine_inv (handleTrackTransition p c st s)"
proof (cases "isAutoAdvancing s")
  case True
  then show ?thesis using assms by (simp add: handleTrackTransition_flag_set)
next
  case False
  define s1 where "s1 = (if shouldPreload st s
      then preloadNextTrack_begin (s\<lparr>preloadInProgress := True\<rparr>) else s)"
  have "neutral s s1"
    using neutral_trans [OF neutral_same neutral_preloadNextTrack_begin,
        of "s\<lparr>preloadInProgress := True\<rparr>" s]
    by (simp add: s1_def neutral_refl)
  then have inv1: "engine_inv s1" and flag1: "\<not> isAutoAdvancing s1"
    using assms False engine_inv_neutral by (auto simp add: neutral_def)
  have "handleTrackTransition p c st s =
      (if shouldAdvanceTraditional p c s
       then executeAdvancement_begin (s1\<lparr>isAutoAdvancing := True\<rparr>) else s1)"
    by (simp add: handleTrackTransition_def Let_def s1_def)
  then show ?thesis
    using inv1 executeAdvancement_begin_inv [OF inv1 flag1] by simp
qed

lemma handleStatusUpdate_inv:
  assumes "engine_inv s"
  shows "engine_inv (handleStatusUpdate dev st s)"
proof -
  have "engine_inv (s\<lparr>currentStatus := st\<rparr>)"
    using engine_inv_neutral [OF assms neutral_same] by simp
  from handleTrackTransition_inv [OF this] assms this show ?thesis
    by (simp add: handleStatusUpdate_def Let_def split: option.split)
qed

lemma transitionDone_inv:
  assumes "engine_inv s" and "inFlight s > 0"
  shows "engine_inv (transitionDone s)"
proof -
  have "transitionsStarted (transitionDone s) = transitionsStarted s"
    "transitionsEnded (transitionDone s) = Suc (transitionsEnded s)"
    "\<not> isAutoAdvancing (transitionDone s)"
    by (simp_all add: transitionDone_def transitionsStarted_def transitionsEnded_def emit_def
        isTransitionStart_def isTransitionEnd_def)
  moreover have "transitionsEnded s < transitionsStarted s"
    "transitionsStarted s - transitionsEnded s \<le> 1"
    using assms by (simp_all add: engine_inv_def inFlight_def)
  ultimately show ?thesis
    by (simp add: engine_inv_def inFlight_def)
qed

lemma engine_inv_flag_in_flight: "engine_inv s \<Longrightarrow> isAutoAdvancing s \<Longrightarrow> inFlight s > 0"
  by (simp add: engine_inv_def)

lemma checkForTransition_inv:
  assumes "engine_inv s"
  shows "engine_inv (snd (checkForTransition i s))"
proof (cases "isAutoAdvancing s")
  case True
  then show ?thesis using assms by (simp add: checkForTransition_flag_set)
next
  case False
  define s1 where "s1 = emit [EvSpawnSwitch i] (s\<lparr>isAutoAdvancing := True, currentTrackIndex := i\<rparr>)"
  have sw: "engine_inv s1"
    unfolding s1_def
    by (rule engine_inv_spawn [OF assms False, of "EvSpawnSwitch i"])
       (simp_all add: emit_def isTransitionStart_def isTransitionEnd_def)
  have "isAutoAdvancing s1" by (simp add: s1_def emit_def)
  then have fin: "engine_inv (transitionDone s1)"
    using transitionDone_inv [OF sw] engine_inv_flag_in_flight [OF sw] by simp
  have ag: "engine_inv (emit [EvSpawnWatch i] s)"
    using engine_inv_neutral [OF assms neutral_emit]
    by (simp add: isTransitionStart_def isTransitionEnd_def)
  show ?thesis
    using False assms sw fin ag
    by (simp add: checkForTransition_def Let_def s1_def [symmetric])
qed

lemma handleTrackFinished_begin_inv:
  assumes "engine_inv s"
  shows "engine_inv (handleTrackFinished_begin s)"
proof (cases "isAutoAdvancing s")
  case True
  then show ?thesis using assms by (simp add: handleTrackFinished_begin_flag_set)
next
  case False
  define s0 where "s0 = emit [EvSpawnFinished] (s\<lparr>isAutoAdvancing := True\<rparr>)"
  have inv0: "engine_inv s0"
    unfolding s0_def
    by (rule engine_inv_spawn [OF assms False, of EvSpawnFinished])
       (simp_all add: emit_def isTransitionStart_def isTransitionEnd_def)
  have flag0: "isAutoAdvancing s0" by (simp add: s0_def emit_def)
  have idx: "engine_inv (s0\<lparr>currentTrackIndex := j\<rparr>)" for j
    using engine_inv_neutral [OF inv0 neutral_same] by simp
  have done0: "engine_inv (transitionDone s0)"
    using transitionDone_inv [OF inv0] engine_inv_flag_in_flight [OF inv0 flag0] by simp
  have done1: "engine_inv (transitionDone (s0\<lparr>currentTrackIndex := j\<rparr>))" for j
    using transitionDone_inv [OF idx [of j]] engine_inv_flag_in_flight [OF idx [of j]] flag0
    by simp
  have "handleTrackFinished_begin s =
     (if repeat s0 = ROne \<and> currentTrackIndex s0 \<ge> 0 then
        (case elemAt (queue s0) (currentTrackIndex s0) of
           None \<Rightarrow> transitionDone s0
         | Some currentTrack \<Rightarrow> s0)
      else if length (queue s0) > 0 \<and> currentTrackIndex s0 < int (length (queue s0)) - 1 then
        (let s1 = s0\<lparr>currentTrackIndex := currentTrackIndex s0 + 1\<rparr>
         in (case elemAt (queue s1) (currentTrackIndex s1) of
               None \<Rightarrow> transitionDone s1
             | Some nextTrack \<Rightarrow> s1))
      else if repeat s0 = RAll \<and> length (queue s0) > 0 then
        (let s1 = s0\<lparr>currentTrackIndex := 0\<rparr>
         in (case elemAt (queue s1) 0 of
               None \<Rightarrow> transitionDone s1
             | Some firstTrack \<Rightarrow> s1))
      else transitionDone s0)"
    using False unfolding handleTrackFinished_begin_def s0_def by (simp only: Let_def if_False)
  then show ?thesis
    using inv0 idx done0 done1 by (simp add: Let_def split: option.split)
qed

lemma neutral_append:
  assumes "trace s' = trace s @ evs" and "filter isTransitionStart evs = []"
    and "filter isTransitionEnd evs = []" and "isAutoAdvancing s' = isAutoAdvancing s"
  shows "neutral s s'"
  using assms by (simp add: neutral_def transitionsStarted_def transitionsEnded_def)

lemma neutral_poll_wait: "neutral s (sleep (EvPollWait n) ms s)"
  by (rule neutral_sleep) (simp_all add: isTransitionStart_def isTransitionEnd_def)

lemma neutral_get_status: "neutral s ((emit [EvGetStatus] s)\<lparr>clock := c\<rparr>)"
  by (rule neutral_append [of _ _ "[EvGetStatus]"])
     (simp_all add: emit_def isTransitionStart_def isTransitionEnd_def)

text \<open>
  A property that status updates and neutral steps preserve is preserved by the
  verification loop, and so by everything that plays a track.
\<close>

lemma verifyLoop_preserves:
  assumes upd: "\<And>dev st s. P s \<Longrightarrow> P (handleStatusUpdate dev st s)"
    and neu: "\<And>s s'. P s \<Longrightarrow> neutral s s' \<Longrightarrow> P s'"
    and "P s"
  shows "P (snd (verifyLoop e timeout start k s))"
  using assms(3)
proof (induction e timeout start k s rule: verifyLoop.induct)
  case (1 e timeout start k s)
  note Ps = "1.prems"
  show ?case
  proof (cases "clock s - start < timeout \<and> \<not> isPlayingOrBuffering (currentStatus s)")
    case False
    then have "snd (verifyLoop e timeout start k s) = s"
      by (subst verifyLoop.simps) auto
    then show ?thesis using Ps by simp
  next
    case go: True
    then have go1: "clock s - start < timeout" and go2: "\<not> isPlayingOrBuffering (currentStatus s)"
      by simp_all
    show ?thesis
    proof (cases "currentDevice s")
      case None
      let ?s' = "sleep (EvPollWait 250) 250 s"
      have step: "verifyLoop e timeout start k s = verifyLoop e timeout start (Suc k) ?s'"
        using go None by (subst verifyLoop.simps) simp
      have "P ?s'" using neu [OF Ps neutral_poll_wait] .
      from "1.IH"(1) [OF go1 go2 None this] show ?thesis by (simp add: step)
    next
      case (Some dev)
      define s1 where "s1 = (emit [EvGetStatus] s)\<lparr>clock := clock s + int (latency e k)\<rparr>"
      have P1: "P s1" using neu [OF Ps neutral_get_status] by (simp add: s1_def)
      show ?thesis
      proof (cases "polls e k")
        case None
        let ?s' = "sleep (EvPollWait 250) 250 s1"
        have step: "verifyLoop e timeout start k s = verifyLoop e timeout start (Suc k) ?s'"
          using go Some None by (subst verifyLoop.simps) (simp add: s1_def [symmetric] Let_def)
        have "P ?s'" using neu [OF P1 neutral_poll_wait] .
        from "1.IH"(2) [OF go1 go2 Some s1_def None this] show ?thesis by (simp add: step)
      next
        case p: (Some st)
        define s2 where "s2 = handleStatusUpdate dev st s1"
        have P2: "P s2" using upd [OF P1] by (simp add: s2_def)
        show ?thesis
        proof (cases "isPlayingOrBuffering st")
          case True
          then have "snd (verifyLoop e timeout start k s) = s2"
            using go Some p
            by (subst verifyLoop.simps) (simp add: s1_def [symmetric] s2_def [symmetric] Let_def)
          then show ?thesis using P2 by simp
        next
          case False
          let ?s' = "sleep (EvPollWait 250) 250 s2"
          have step: "verifyLoop e timeout start k s = verifyLoop e timeout start (Suc k) ?s'"
            using go Some p False
            by (subst verifyLoop.simps) (simp add: s1_def [symmetric] s2_def [symmetric] Let_def)
          have "P ?s'" using neu [OF P2 neutral_poll_wait] .
          from "1.IH"(3) [OF go1 go2 Some s1_def p s2_def False this] show ?thesis
            by (simp add: step)
        qed
      qed
    qed
  qed
qed

lemma playMediaDirectly_preserves:
  assumes upd: "\<And>dev st s. P s \<Longrightarrow> P (handleStatusUpdate dev st s)"
    and neu: "\<And>s s'. P s \<Longrightarrow> neutral s s' \<Longrightarrow> P s'"
    and "P s"
  shows "P (snd (playMediaDirectly e t s))"
proof (cases "currentDevice s")
  case None
  then show ?thesis using assms(3) by (simp add: playMediaDirectly_def)
next
  case (Some dev)
  let ?s1 = "emit [EvLoad (url t) (contentType t) (title t)] s"
  have n1: "neutral s ?s1"
    by (rule neutral_emit) (simp add: isTransitionStart_def isTransitionEnd_def)
  have P1: "P ?s1" using neu [OF assms(3) n1] .
  show ?thesis
  proof (cases "loadAck e")
    case LoadOk
    let ?s2 = "sleep (EvPollWait 250) 250 ?s1"
    have "P ?s2" using neu [OF P1 neutral_poll_wait] .
    from verifyLoop_preserves [where P = P and s = ?s2 and e = e and k = 0
        and timeout = "verificationTimeout (verificationTimeoutCfg ?s1)" and start = "clock ?s1",
        OF upd neu this]
    have "P (snd (verifyPlayback e ?s1))" by (simp add: verifyPlayback_def Let_def)
    moreover obtain b s3 where "verifyPlayback e ?s1 = (b, s3)" by (cases "verifyPlayback e ?s1")
    ultimately show ?thesis
      using Some LoadOk by (simp add: playMediaDirectly_def Let_def)
  next
    case (LoadErr msg)
    then show ?thesis using Some P1 by (simp add: playMediaDirectly_def Let_def)
  next
    case LoadTimeout
    have "neutral ?s1 (?s1\<lparr>clock := clock ?s1 + 10000\<rparr>)" by (simp add: neutral_same)
    from neu [OF P1 this] show ?thesis
      using Some LoadTimeout by (simp add: playMediaDirectly_def Let_def)
  qed
qed

lemma neutral_ensureSessionActive: "neutral s (snd (ensureSessionActive e s))"
proof (cases "currentDevice s")
  case None
  then show ?thesis by (simp add: ensureSessionActive_def neutral_refl)
next
  case (Some dev)
  show ?thesis
  proof (cases "sessionProbe e")
    case HasSession
    show ?thesis
      using Some HasSession
      by (simp add: ensureSessionActive_def Let_def)
         (rule neutral_emit, simp add: isTransitionStart_def isTransitionEnd_def)
  next
    case WarmupOk
    show ?thesis
      using Some WarmupOk
      by (simp add: ensureSessionActive_def Let_def)
         (rule neutral_append [of _ _ "[EvGetStatus, EvLoad dummyMediaUrl ''video/mp4'' ''Session Warmup'',
             EvWarmupWait 800, EvStop, EvGetStatus]"],
          simp_all add: emit_def sleep_def isTransitionStart_def isTransitionEnd_def)
  next
    case WarmupFailed
    show ?thesis
      using Some WarmupFailed
      by (simp add: ensureSessionActive_def Let_def)
         (rule neutral_append [of _ _ "[EvGetStatus, EvLoad dummyMediaUrl ''video/mp4'' ''Session Warmup'']"],
          simp_all add: emit_def isTransitionStart_def isTransitionEnd_def)
  qed
qed

lemma neutral_stopCurrentPlayback: "neutral s (stopCurrentPlayback s)"
proof (cases "currentDevice s")
  case None
  then show ?thesis by (simp add: stopCurrentPlayback_def neutral_refl)
next
  case (Some dev)
  then show ?thesis
    by (simp add: stopCurrentPlayback_def)
       (rule neutral_emit, simp add: isTransitionStart_def isTransitionEnd_def)
qed

lemma playMedia_preserves:
  assumes upd: "\<And>dev st s. P s \<Longrightarrow> P (handleStatusUpdate dev st s)"
    and neu: "\<And>s s'. P s \<Longrightarrow> neutral s s' \<Longrightarrow> P s'"
    and "P s"
  shows "P (snd (playMedia e t force s))"
proof (cases "currentDevice s")
  case None
  then show ?thesis using assms(3) by (simp add: playMedia_def)
next
  case (Some dev)
  obtain r1 s1 where es: "ensureSessionActive e s = (r1, s1)" by (cases "ensureSessionActive e s")
  have P1: "P s1" using neu [OF assms(3) neutral_ensureSessionActive [of s e]] es by simp
  show ?thesis
  proof (cases r1)
    case (Inl err)
    then show ?thesis using Some es P1 by (simp add: playMedia_def)
  next
    case (Inr established)
    define s2 where "s2 = (if force then stopCurrentPlayback s1 else s1)"
    have P2: "P s2"
      using neu [OF P1 neutral_stopCurrentPlayback] P1 by (simp add: s2_def)
    obtain r3 s3 where pd: "playMediaDirectly e t s2 = (r3, s3)" by (cases "playMediaDirectly e t s2")
    have P3: "P s3"
      using playMediaDirectly_preserves [where P = P and s = s2 and e = e and t = t, OF upd neu P2]
        pd by simp
    have "snd (playMedia e t force s) = s3"
      using Some es Inr pd
      by (simp add: playMedia_def Let_def s2_def split: sum.split error.split)
    with P3 show ?thesis by simp
  qed
qed

lemma neutral_disconnect: "neutral s (disconnect s)"
  by (simp add: disconnect_def Let_def neutral_same)

lemma playAttempt_preserves:
  assumes upd: "\<And>dev st s. P s \<Longrightarrow> P (handleStatusUpdate dev st s)"
    and neu: "\<And>s s'. P s \<Longrightarrow> neutral s s' \<Longrightarrow> P s'"
    and "P s"
  shows "P (snd (playAttempt r n t qb i s))"
proof -
  define rc where "rc =
     (if currentDevice s = None then
        (case recovery r n of
           NoSavedDevice \<Rightarrow> (None, s)
         | RecoveredFirst d \<Rightarrow> (None, s\<lparr>currentDevice := Some d, connectionKeepAlive := True\<rparr>)
         | RecoveredSecond d \<Rightarrow>
             (None, s\<lparr>queue := qb, currentTrackIndex := i,
                       currentDevice := Some d, connectionKeepAlive := True\<rparr>)
         | ReconnectThrew msg \<Rightarrow>
             (Some (ChromecastError msg), disconnect (s\<lparr>queue := qb, currentTrackIndex := i\<rparr>)))
      else (None, s))"
  have "neutral s (snd rc)"
    by (simp add: rc_def disconnect_def Let_def neutral_same neutral_refl
        split: recovery_result.split)
  obtain oe s1 where rceq: "rc = (oe, s1)" by (cases rc)
  have P1: "P s1" using neu [OF assms(3) \<open>neutral s (snd rc)\<close>] rceq by simp
  show ?thesis
  proof (cases oe)
    case (Some err)
    have "snd (playAttempt r n t qb i s) = s1"
      using rceq Some unfolding playAttempt_def rc_def [symmetric] by (simp add: Let_def)
    then show ?thesis using P1 by simp
  next
    case None
    show ?thesis
    proof (cases "currentDevice s1")
      case nodev: None
      have "snd (playAttempt r n t qb i s) = s1"
        using rceq None nodev unfolding playAttempt_def rc_def [symmetric] by (simp add: Let_def)
      then show ?thesis using P1 by simp
    next
      case (Some dev)
      let ?s2 = "s1\<lparr>queue := qb, currentTrackIndex := i\<rparr>"
      have "snd (playAttempt r n t qb i s) = snd (playMedia (attemptEnv r n) t True ?s2)"
        using rceq None Some unfolding playAttempt_def rc_def [symmetric]
        by (simp add: Let_def split: prod.split sum.split)
      moreover have "P ?s2" using neu [OF P1 neutral_same] by simp
      ultimately show ?thesis
        using playMedia_preserves [where P = P and s = ?s2 and e = "attemptEnv r n" and t = t
            and force = True, OF upd neu]
        by simp
    qed
  qed
qed

lemma playTrackWithRecovery_preserves:
  assumes upd: "\<And>dev st s. P s \<Longrightarrow> P (handleStatusUpdate dev st s)"
    and neu: "\<And>s s'. P s \<Longrightarrow> neutral s s' \<Longrightarrow> P s'"
    and "P s"
  shows "P (snd (playTrackWithRecovery r t qb i s))"
proof -
  have pa: "P (snd (playAttempt r n t qb i s'))" if "P s'" for n s'
    using playAttempt_preserves [where P = P and s = s', OF upd neu that] .
  have att: "P (emit [EvAttempt n] s')" if "P s'" for n s'
    by (rule neu [OF that], rule neutral_emit) (simp add: isTransitionStart_def isTransitionEnd_def)
  have bo: "P (sleep (EvBackoff m) m s')" if "P s'" for m s'
    by (rule neu [OF that], rule neutral_sleep)
       (simp_all add: isTransitionStart_def isTransitionEnd_def)
  obtain r1 s1 where a1: "playAttempt r 1 t qb i (emit [EvAttempt 1] s) = (r1, s1)"
    by (cases "playAttempt r 1 t qb i (emit [EvAttempt 1] s)")
  have P1: "P s1" using pa [OF att [OF assms(3)], of 1 1] a1 by simp
  obtain r2 s2 where a2:
    "playAttempt r 2 t qb i (emit [EvAttempt 2] (sleep (EvBackoff 1000) 1000 s1)) = (r2, s2)"
    by (cases "playAttempt r 2 t qb i (emit [EvAttempt 2] (sleep (EvBackoff 1000) 1000 s1))")
  have P2: "P s2" using pa [OF att [OF bo [OF P1]], of 2 2 1000] a2 by simp
  obtain r3 s3 where a3:
    "playAttempt r 3 t qb i (emit [EvAttempt 3] (sleep (EvBackoff 2000) 2000 s2)) = (r3, s3)"
    by (cases "playAttempt r 3 t qb i (emit [EvAttempt 3] (sleep (EvBackoff 2000) 2000 s2))")
  have P3: "P s3" using pa [OF att [OF bo [OF P2]], of 3 3 2000] a3 by simp
  have "snd (playTrackWithRecovery r t qb i s) = s1 \<or> snd (playTrackWithRecovery r t qb i s) = s2
      \<or> snd (playTrackWithRecovery r t qb i s) = s3"
    using a1 a2 a3
    by (cases r1; cases r2; cases r3) (simp_all add: playTrackWithRecovery_unrolled)
  then show ?thesis using P1 P2 P3 by auto
qed

lemma snd_case_result:
  "snd (case p of (Inl a, s) \<Rightarrow> (f a, s) | (Inr b, s) \<Rightarrow> (g b, s)) = snd p"
  by (cases p; cases "fst p") auto

lemma skipToNext_inv:
  assumes "engine_inv s"
  shows "engine_inv (snd (skipToNext e s))"
proof (cases "currentDevice s")
  case None
  then show ?thesis using assms by (simp add: skipToNext_def)
next
  case (Some dev)
  let ?s1 = "s\<lparr>currentTrackIndex := currentTrackIndex s + 1\<rparr>"
  have inv1: "engine_inv ?s1" using engine_inv_neutral [OF assms neutral_same] by simp
  have pm: "engine_inv (snd (playMedia e t True ?s1))" for t
    using playMedia_preserves [where P = engine_inv and s = ?s1, OF handleStatusUpdate_inv
        engine_inv_neutral inv1] .
  have stop: "engine_inv (emit [EvPlayerStop] s)"
    by (rule engine_inv_neutral [OF assms], rule neutral_emit)
       (simp add: isTransitionStart_def isTransitionEnd_def)
  show ?thesis
    using Some assms inv1 pm stop
    by (simp add: skipToNext_def Let_def snd_case_result split: option.split)
qed

lemma skipToTrack_inv:
  assumes "engine_inv s"
  shows "engine_inv (snd (skipToTrack e n s))"
proof -
  let ?s1 = "s\<lparr>currentTrackIndex := n - 1\<rparr>"
  have inv1: "engine_inv ?s1" using engine_inv_neutral [OF assms neutral_same] by simp
  have pm: "engine_inv (snd (playMedia e t True ?s1))" for t
    using playMedia_preserves [where P = engine_inv and s = ?s1, OF handleStatusUpdate_inv
        engine_inv_neutral inv1] .
  show ?thesis
    using assms pm by (simp add: skipToTrack_def Let_def snd_case_result)
qed

lemma neutral_apply_qop: "neutral s (apply_qop op s)"
proof (cases op)
  case (OpShuffle rnd)
  then show ?thesis by (simp add: shuffleQueue_def Let_def neutral_same neutral_refl)
next
  case OpRestore
  then show ?thesis by (simp add: restoreQueueOrder_def neutral_same neutral_refl)
next
  case (OpAdd castOk tracks)
  have "neutral s ((emit [EvQueueLoad (length tracks)] s)
      \<lparr>queue := map toQueueEntry tracks, currentTrackIndex := 0\<rparr>)"
    by (rule neutral_append [of _ _ "[EvQueueLoad (length tracks)]"])
       (simp_all add: emit_def isTransitionStart_def isTransitionEnd_def)
  then show ?thesis using OpAdd by (simp add: addToQueue_def Let_def neutral_refl)
next
  case (OpRemove index)
  then show ?thesis by (simp add: removeFromQueue_def Let_def neutral_same neutral_refl)
next
  case OpClear
  then show ?thesis by (simp add: clearQueue_def neutral_same)
qed

lemma neutral_preloadTimerFired: "neutral s (preloadTimerFired t s)"
proof (cases "currentDevice s")
  case None
  then show ?thesis by (simp add: preloadTimerFired_def neutral_refl)
next
  case (Some dev)
  then show ?thesis
    by (simp add: preloadTimerFired_def)
       (rule neutral_emit, simp add: isTransitionStart_def isTransitionEnd_def)
qed

lemma neutral_preloadEnded: "neutral s (preloadEnded acknowledged i s)"
proof (cases acknowledged)
  case True
  have "neutral s ((emit [EvSpawnWatch i] s)\<lparr>preloadInProgress := False\<rparr>)"
    by (rule neutral_append [of _ _ "[EvSpawnWatch i]"])
       (simp_all add: emit_def isTransitionStart_def isTransitionEnd_def)
  then show ?thesis using True by (simp add: preloadEnded_def)
next
  case False
  then show ?thesis by (simp add: preloadEnded_def neutral_same)
qed

lemma neutral_setRepeatMode:
  "neutral s (case setRepeatMode mode s of Inl e \<Rightarrow> s | Inr r \<Rightarrow> snd r)"
  by (simp add: setRepeatMode_def neutral_same neutral_refl)

lemma do_segment_inv:
  assumes "engine_inv s"
  shows "engine_inv (do_segment sg s)"
proof (cases sg)
  case (SgStatus dev status)
  then show ?thesis using handleStatusUpdate_inv [OF assms] by simp
next
  case (SgFinished dev)
  then show ?thesis
    using handleTrackFinished_begin_inv [OF assms] assms by (simp split: option.split)
next
  case (SgDeviceGone dev)
  then show ?thesis
    using engine_inv_neutral [OF assms neutral_same] assms by (simp split: option.split)
next
  case (SgPreloadTimer t)
  then show ?thesis using engine_inv_neutral [OF assms neutral_preloadTimerFired] by simp
next
  case (SgPreloadEnded acknowledged i)
  then show ?thesis using engine_inv_neutral [OF assms neutral_preloadEnded] by simp
next
  case (SgWatchTick i)
  then show ?thesis using checkForTransition_inv [OF assms] by simp
next
  case SgTransitionEnds
  then show ?thesis using transitionDone_inv [OF assms] assms by simp
next
  case (SgSetDevice dev)
  then show ?thesis using engine_inv_neutral [OF assms neutral_same] by simp
next
  case SgStartKeepAlive
  then show ?thesis using engine_inv_neutral [OF assms neutral_same] by simp
next
  case SgDisconnect
  then show ?thesis using engine_inv_neutral [OF assms neutral_disconnect] by simp
next
  case (SgRestoreQueue qb i)
  then show ?thesis using engine_inv_neutral [OF assms neutral_same] by simp
next
  case (SgWarmup b)
  then show ?thesis using engine_inv_neutral [OF assms neutral_same] by simp
next
  case (SgSetIndex i)
  then show ?thesis using engine_inv_neutral [OF assms neutral_same] by simp
next
  case (SgSetQueue q)
  then show ?thesis using engine_inv_neutral [OF assms neutral_same] by simp
next
  case (SgPlayerState st)
  then show ?thesis using engine_inv_neutral [OF assms neutral_same] by simp
next
  case SgStopped
  then show ?thesis using engine_inv_neutral [OF assms neutral_same] by simp
next
  case (SgQueue op)
  then show ?thesis using engine_inv_neutral [OF assms neutral_apply_qop] by simp
next
  case (SgSetRepeat mode)
  then show ?thesis using engine_inv_neutral [OF assms neutral_setRepeatMode] by simp
qed

lemma neutral_stop: "neutral s (snd (stop e s))"
proof (cases "currentDevice s")
  case None
  then show ?thesis by (simp add: stop_def neutral_refl)
next
  case (Some dev)
  have a: "neutral s (emit [EvPlayerStop] s)"
    by (rule neutral_emit) (simp add: isTransitionStart_def isTransitionEnd_def)
  have b: "neutral s ((emit [EvPlayerStop] s)\<lparr>currentStatus := st, currentTrackIndex := j\<rparr>)" for st j
    by (rule neutral_trans [OF a neutral_same]) simp_all
  show ?thesis
    using Some a b by (simp add: stop_def neutral_refl split: option.split)
qed

lemma do_step_inv:
  assumes "engine_inv s"
  shows "engine_inv (do_step st s)"
proof (cases st)
  case (StSegment sg)
  then show ?thesis using do_segment_inv [OF assms] by simp
next
  case (StPlay e t force)
  then show ?thesis
    using playMedia_preserves [where P = engine_inv and s = s, OF handleStatusUpdate_inv
        engine_inv_neutral assms]
    by simp
next
  case (StRecoverPlay r t qb i)
  then show ?thesis
    using playTrackWithRecovery_preserves [where P = engine_inv and s = s,
        OF handleStatusUpdate_inv engine_inv_neutral assms]
    by simp
next
  case (StSkipNext e)
  then show ?thesis using skipToNext_inv [OF assms] by simp
next
  case (StSkipToTrack e n)
  then show ?thesis using skipToTrack_inv [OF assms] by simp
next
  case (StStop e)
  then show ?thesis using engine_inv_neutral [OF assms neutral_stop] by simp
qed

lemma run_steps_inv: "engine_inv s \<Longrightarrow> engine_inv (run_steps sts s)"
  by (induction sts arbitrary: s) (simp_all add: do_step_inv)

lemma initial_service_inv: "engine_inv (initial_service cfg)"
  by (simp add: engine_inv_def inFlight_def transitionsStarted_def transitionsEnded_def
      initial_service_def)

lemma preload_part_events:
  "newEvents s (if shouldPreload st s
      then preloadNextTrack_begin (s\<lparr>preloadInProgress := True\<rparr>) else s) = []
   \<or> (\<exists>j. newEvents s (if shouldPreload st s
      then preloadNextTrack_begin (s\<lparr>preloadInProgress := True\<rparr>) else s) = [EvSpawnPreload j])"
  by (simp add: preloadNextTrack_begin_def newEvents_def emit_def Let_def split: option.split)

lemma handleTrackTransition_spawn:
  assumes "EvSpawnAdvance \<in> set (newEvents s (handleTrackTransition p c st s))"
  shows "isAutoAdvancing (handleTrackTransition p c st s)"
proof -
  define s1 where "s1 = (if shouldPreload st s
      then preloadNextTrack_begin (s\<lparr>preloadInProgress := True\<rparr>) else s)"
  have pre: "EvSpawnAdvance \<notin> set (newEvents s s1)"
    using preload_part_events [of s st] by (auto simp add: s1_def)
  have eq: "handleTrackTransition p c st s =
      (if shouldAdvanceTraditional p c s
       then executeAdvancement_begin (s1\<lparr>isAutoAdvancing := True\<rparr>) else s1)"
    by (simp add: handleTrackTransition_def Let_def s1_def)
  show ?thesis
  proof (cases "shouldAdvanceTraditional p c s")
    case False
    then show ?thesis using assms pre by (simp add: eq)
  next
    case True
    let ?s2 = "s1\<lparr>isAutoAdvancing := True\<rparr>"
    have same: "newEvents s (?s2\<lparr>isAutoAdvancing := False\<rparr>) = newEvents s s1"
      by (simp add: newEvents_def)
    show ?thesis
    proof (cases "chooseAdvancement ?s2")
      case (Replay t i)
      then show ?thesis using True by (simp add: eq executeAdvancement_begin_def emit_def)
    next
      case (Advance t i)
      then show ?thesis using True by (simp add: eq executeAdvancement_begin_def emit_def)
    next
      case (WrapAround t)
      then show ?thesis using True by (simp add: eq executeAdvancement_begin_def emit_def)
    next
      case QueueFinished
      then show ?thesis
        using True assms pre same by (simp add: eq executeAdvancement_begin_def)
    next
      case AdvanceThrew
      then show ?thesis
        using True assms pre same by (simp add: eq executeAdvancement_begin_def)
    qed
  qed
qed

lemma checkForTransition_switch:
  "fst (checkForTransition i s) = WatchSwitch \<Longrightarrow>
   playerState (currentStatus s) \<noteq> Some ''PLAYING'' \<Longrightarrow>
   isAutoAdvancing (snd (checkForTransition i s))"
  by (simp add: checkForTransition_def Let_def emit_def split: if_splits)

lemma handleTrackFinished_begin_holds:
  assumes "\<not> isAutoAdvancing s"
    and "EvTransitionDone \<notin> set (newEvents s (handleTrackFinished_begin s))"
  shows "isAutoAdvancing (handleTrackFinished_begin s)"
proof -
  from handleTrackFinished_begin_cases [OF assms(1)]
  consider (held) j where "handleTrackFinished_begin s =
        (emit [EvSpawnFinished] (s\<lparr>isAutoAdvancing := True\<rparr>))\<lparr>currentTrackIndex := j\<rparr>"
    | (ended) j where "handleTrackFinished_begin s =
        transitionDone
          ((emit [EvSpawnFinished] (s\<lparr>isAutoAdvancing := True\<rparr>))\<lparr>currentTrackIndex := j\<rparr>)"
    by blast
  then show ?thesis
  proof cases
    case held
    then show ?thesis by (simp add: emit_def)
  next
    case ended
    then have "EvTransitionDone \<in> set (newEvents s (handleTrackFinished_begin s))"
      by (simp add: newEvents_def transitionDone_def emit_def)
    with assms(2) show ?thesis by simp
  qed
qed

text \<open>
  C9, as amended. In every state reached from the initial state by any sequence of
  steps, at most one of the transitions that take \<^verbatim>\<open>isAutoAdvancing\<close> is in flight,
  the fallback advance, the switch of the seamless transition or the advance of the
  \<^verbatim>\<open>finished\<close> handler, and the flag is set exactly while one is. While the flag is
  set, a watcher tick cancels itself, the transition logic of a status update starts
  nothing, and the handler of the \<^verbatim>\<open>finished\<close> event does nothing. A watcher tick that
  commits to the switch and has to restart playback, a status update that starts the
  fallback advance, and a \<^verbatim>\<open>finished\<close> handler that does not end at once all leave the
  flag set. The preload is not covered: it is guarded by \<^verbatim>\<open>preloadInProgress\<close> and can
  start alongside the fallback advance.
\<close>

theorem transitions_mutually_exclusive:
  "inFlight (run_steps sts (initial_service cfg)) \<le> 1
   \<and> isAutoAdvancing (run_steps sts (initial_service cfg)) =
       (inFlight (run_steps sts (initial_service cfg)) = 1)
   \<and> (isAutoAdvancing s \<longrightarrow>
        checkForTransition i s = (WatchCancelled, s)
        \<and> handleTrackTransition p c st s = s
        \<and> handleTrackFinished_begin s = s)
   \<and> (fst (checkForTransition i s) = WatchSwitch
        \<and> playerState (currentStatus s) \<noteq> Some ''PLAYING'' \<longrightarrow>
        isAutoAdvancing (snd (checkForTransition i s)))
   \<and> (EvSpawnAdvance \<in> set (newEvents s (handleTrackTransition p c st s)) \<longrightarrow>
        isAutoAdvancing (handleTrackTransition p c st s))
   \<and> (\<not> isAutoAdvancing s
        \<and> EvTransitionDone \<notin> set (newEvents s (handleTrackFinished_begin s)) \<longrightarrow>
        isAutoAdvancing (handleTrackFinished_begin s))"
proof -
  have "engine_inv (run_steps sts (initial_service cfg))"
    using run_steps_inv [OF initial_service_inv] .
  then have "inFlight (run_steps sts (initial_service cfg)) \<le> 1"
    "isAutoAdvancing (run_steps sts (initial_service cfg)) =
       (inFlight (run_steps sts (initial_service cfg)) = 1)"
    by (simp_all add: engine_inv_def)
  then show ?thesis
    using checkForTransition_flag_set [of s i] handleTrackTransition_flag_set [of s p c st]
      handleTrackFinished_begin_flag_set [of s] checkForTransition_switch [of i s]
      handleTrackTransition_spawn [of s p c st] handleTrackFinished_begin_holds [of s]
    by blast
qed

lemma exampleRun_state:
  "run_steps exampleRun (initial_service None) =
     (initial_service None)
       \<lparr>currentDevice := Some livingRoom, currentStatus := lateBuffering,
         queue := [trackA, trackB, trackC], currentTrackIndex := 1,
         isAutoAdvancing := True, preloadInProgress := True, connectionKeepAlive := True,
         trace := [EvQueueLoad 3, EvSpawnPreload 1, EvSpawnAdvance]\<rparr>"
  by (simp add: exampleRun_def catalog3_def initial_service_def addToQueue_def emit_def
      toQueueEntry_def Let_def handleStatusUpdate_def handleTrackTransition_def
      shouldPreload_def shouldAdvanceTraditional_def preloadNextTrack_begin_def
      executeAdvancement_begin_def chooseAdvancement_def elemAt_def livingRoom_def
      playingStatus_def lateBuffering_def getDefaultStatus_def trackA_def trackB_def trackC_def)

lemma finishedRun_state:
  "run_steps finishedRun (initial_service None) =
     (initial_service None)
       \<lparr>currentDevice := Some livingRoom, queue := [trackA, trackB, trackC],
         currentTrackIndex := 1, isAutoAdvancing := True,
         trace := [EvQueueLoad 3, EvSpawnFinished]\<rparr>"
  by (simp add: finishedRun_def catalog3_def initial_service_def addToQueue_def emit_def
      toQueueEntry_def Let_def handleTrackFinished_begin_def elemAt_def livingRoom_def
      trackA_def trackB_def trackC_def)

theorem transitions_mutually_exclusive_witness:
  "isAutoAdvancing (run_steps exampleRun (initial_service None))
   \<and> inFlight (run_steps exampleRun (initial_service None)) = 1
   \<and> checkForTransition 1 (run_steps exampleRun (initial_service None)) =
       (WatchCancelled, run_steps exampleRun (initial_service None))
   \<and> handleTrackFinished_begin (run_steps exampleRun (initial_service None)) =
       run_steps exampleRun (initial_service None)
   \<and> inFlight (run_steps (exampleRun @ [StSegment (SgWatchTick 1), StSegment SgTransitionEnds])
        (initial_service None)) \<le> 1
   \<and> isAutoAdvancing (run_steps finishedRun (initial_service None))
   \<and> inFlight (run_steps finishedRun (initial_service None)) = 1
   \<and> handleTrackTransition (Some ''PLAYING'') ''IDLE'' idleStatus
        (run_steps finishedRun (initial_service None)) =
       run_steps finishedRun (initial_service None)"
proof -
  let ?s = "run_steps exampleRun (initial_service None)"
  let ?f = "run_steps finishedRun (initial_service None)"
  have flag: "isAutoAdvancing ?s" by (simp add: exampleRun_state)
  have flagf: "isAutoAdvancing ?f" by (simp add: finishedRun_state)
  note a = transitions_mutually_exclusive
    [where sts = exampleRun and cfg = None and s = ?s and i = 1 and p = "Some ''PLAYING''"
       and c = "''IDLE''" and st = idleStatus]
  note b = transitions_mutually_exclusive
    [where sts = "exampleRun @ [StSegment (SgWatchTick 1), StSegment SgTransitionEnds]"
       and cfg = None and s = ?s and i = 1 and p = "Some ''PLAYING''"
       and c = "''IDLE''" and st = idleStatus]
  note c = transitions_mutually_exclusive
    [where sts = finishedRun and cfg = None and s = ?f and i = 1 and p = "Some ''PLAYING''"
       and c = "''IDLE''" and st = idleStatus]
  show ?thesis
    using flag flagf a b c by simp
qed

text \<open>
  The claim of C9 as stated fails: with \<open>[A, B, C]\<close> queued, the first entry playing
  and no transition running, one status update (buffering, 160 seconds into a track of
  200) starts both the preload of the next track and the fallback advance.
\<close>

theorem status_update_starts_both_counterexample:
  "newEvents playing3 (handleStatusUpdate livingRoom lateBuffering playing3) =
     [EvSpawnPreload 1, EvSpawnAdvance]
   \<and> \<not> isAutoAdvancing playing3 \<and> \<not> preloadInProgress playing3
   \<and> preloadInProgress (handleStatusUpdate livingRoom lateBuffering playing3)
   \<and> isAutoAdvancing (handleStatusUpdate livingRoom lateBuffering playing3)"
  by (simp add: playing3_def connected3_def initial_service_def newEvents_def emit_def
      Let_def handleStatusUpdate_def handleTrackTransition_def
      shouldPreload_def shouldAdvanceTraditional_def preloadNextTrack_begin_def
      executeAdvancement_begin_def chooseAdvancement_def elemAt_def livingRoom_def
      playingStatus_def lateBuffering_def)

end
